theory Spec2Isabelle
  imports Complex_Main "HOL-Library.Word" "HOL-Library.Sublist" "HOL-Library.Finite_Map"
begin

unbundle bit_operations_syntax

section \<open>The OpenRQ installer (main.go)\<close>

text \<open>
  The installer is one Go file. Its functions are embedded as HOL functions over an
  explicit world: the file system the process sees, and the trace of the calls the
  program makes to the progress bar, the status label, the operating system and the
  archive reader. Functions of Go's standard library are modelled from their
  documentation, for Unix paths (separator \<open>/\<close>, no volume names, no symbolic links).
\<close>

subsection \<open>Errors and results\<close>

text \<open>The errors of archive/zip: format, algorithm, checksum.\<close>

datatype zip_error = ErrFormat | ErrAlgorithm | ErrChecksum

datatype error =
    ENOENT      \<comment> \<open>no such file or directory\<close>
  | ENOTDIR     \<comment> \<open>not a directory\<close>
  | EISDIR      \<comment> \<open>is a directory\<close>
  | EEXIST      \<comment> \<open>file exists\<close>
  | ENOTEMPTY   \<comment> \<open>directory not empty\<close>
  | EACCES      \<comment> \<open>permission denied\<close>
  | EINVAL      \<comment> \<open>invalid argument\<close>
  | ErrZip zip_error  \<comment> \<open>an error of archive/zip\<close>
  | ErrExit     \<comment> \<open>exec.ExitError: the command ran and failed\<close>
  | ErrUser     \<comment> \<open>the error of user.Current\<close>

text \<open>What a Go function of type \<open>error\<close> does: return nil, return an error, or panic.\<close>

datatype result = Nil | Err error | Panic error

subsection \<open>Strings\<close>

definition appName :: string where
  "appName = ''OpenRQ''"

text \<open>\<open>strings.LastIndex(s, c)\<close> for a one-byte \<open>c\<close>: the last index of \<open>c\<close>, or -1.\<close>

fun LastIndex :: "string \<Rightarrow> char \<Rightarrow> int" where
  "LastIndex [] c = - 1"
| "LastIndex (x # xs) c =
     (let r = LastIndex xs c
      in if 0 \<le> r then r + 1 else if x = c then 0 else - 1)"

text \<open>\<open>strings.ToLower\<close> on ASCII.\<close>

definition ToLower :: "string \<Rightarrow> string" where
  "ToLower s =
     map (\<lambda>c. let n = (of_char c :: nat) in if 65 \<le> n \<and> n \<le> 90 then char_of (n + 32) else c) s"

subsection \<open>Locations (GetUsername .. GetShortcutLocation)\<close>

text \<open>
  \<open>GetUsername\<close> takes what \<open>user.Current()\<close> returned: \<open>Inr\<close> the account's Username,
  \<open>Inl\<close> its error. The functions return \<open>Inl e\<close> where the source panics with \<open>e\<close>.
  \<open>strings.Contains(s, "\\")\<close> is \<open>CHR 0x5C \<in> set s\<close>.
\<close>

definition GetUsername :: "error + string \<Rightarrow> error + string" where
  "GetUsername cur =
     (case cur of
        Inl err \<Rightarrow> Inl err
      | Inr username \<Rightarrow>
          if CHR 0x5C \<in> set username
          then (let index = LastIndex username (CHR 0x5C) + 1
                in Inr (drop (nat index) username))
          else Inr username)"

definition GetTempPath :: "string \<Rightarrow> error + string \<Rightarrow> error + string" where
  "GetTempPath goos cur =
     (if goos = ''darwin'' then Inr ''/tmp/''
      else case GetUsername cur of
             Inl err \<Rightarrow> Inl err
           | Inr u \<Rightarrow>
               if goos = ''windows'' then Inr (''C:/Users/'' @ u @ ''/AppData/Local/Temp/'')
               else Inr (''/home/'' @ u @ ''/.cache/''))"

definition GetInstallPath :: "string \<Rightarrow> error + string \<Rightarrow> error + string" where
  "GetInstallPath goos cur =
     (if goos = ''darwin'' then Inr (''/Applications/'' @ appName @ ''/'')
      else case GetUsername cur of
             Inl err \<Rightarrow> Inl err
           | Inr u \<Rightarrow>
               if goos = ''windows'' then Inr (''C:/Users/'' @ u @ ''/AppData/Local/'' @ appName @ ''/'')
               else if goos = ''linux'' then Inr (''/home/'' @ u @ ''/.local/share/'' @ appName @ ''/'')
               else Inr (u @ ''/'' @ appName @ ''/''))"

definition GetFileFromPath :: "string \<Rightarrow> string" where
  "GetFileFromPath path =
     (let lastIndex = LastIndex path (CHR ''/'') + 1
      in if lastIndex = 0 then path else drop (nat lastIndex) path)"

definition GetExecutableName :: "string \<Rightarrow> string" where
  "GetExecutableName goos = (if goos = ''windows'' then appName @ ''.exe'' else appName)"

definition GetShortcutLocation :: "string \<Rightarrow> error + string \<Rightarrow> error + string" where
  "GetShortcutLocation goos cur =
     (if goos = ''linux'' then
        (case GetUsername cur of
           Inl err \<Rightarrow> Inl err
         | Inr u \<Rightarrow> Inr (''/home/'' @ u @ ''/.local/share/applications/'' @ ToLower appName @ ''.desktop''))
      else if goos = ''windows'' then
        (case GetUsername cur of
           Inl err \<Rightarrow> Inl err
         | Inr u \<Rightarrow>
             Inr (''C:/Users/'' @ u @ ''/AppData/Roaming/Microsoft/Windows/Start Menu/Programs/''
                  @ appName @ ''.lnk''))
      else Inr '''')"

subsection \<open>path/filepath: Clean, Join, Dir\<close>

text \<open>\<open>strings.Split(s, "/")\<close>: the elements between the separators, empty ones kept.\<close>

fun split_slash :: "string \<Rightarrow> string list" where
  "split_slash [] = [[]]"
| "split_slash (c # cs) =
     (let r = split_slash cs
      in if c = CHR ''/'' then [] # r else (c # hd r) # tl r)"

text \<open>\<open>strings.Join(elems, "/")\<close>.\<close>

fun join_slash :: "string list \<Rightarrow> string" where
  "join_slash [] = []"
| "join_slash [x] = x"
| "join_slash (x # y # ys) = x @ CHR ''/'' # join_slash (y # ys)"

text \<open>
  The rules of \<open>filepath.Clean\<close>, applied to the elements from left to right with the
  cleaned elements so far in \<open>acc\<close>: an empty element (a repeated separator) and \<open>.\<close> are
  dropped; \<open>..\<close> removes the element before it unless that is \<open>..\<close> itself or there is none,
  and then it is dropped in a rooted path and kept in a relative one.
\<close>

fun clean_elems :: "bool \<Rightarrow> string list \<Rightarrow> string list \<Rightarrow> string list" where
  "clean_elems rooted acc [] = acc"
| "clean_elems rooted acc (c # cs) =
     (if c = [] \<or> c = ''.'' then clean_elems rooted acc cs
      else if c = ''..'' then
        (if acc \<noteq> [] \<and> last acc \<noteq> ''..'' then clean_elems rooted (butlast acc) cs
         else if rooted then clean_elems rooted acc cs
         else clean_elems rooted (acc @ [c]) cs)
      else clean_elems rooted (acc @ [c]) cs)"

definition is_rooted :: "string \<Rightarrow> bool" where
  "is_rooted s = (case s of [] \<Rightarrow> False | c # _ \<Rightarrow> c = CHR ''/'')"

definition Clean :: "string \<Rightarrow> string" where
  "Clean s =
     (let elems = clean_elems (is_rooted s) [] (split_slash s)
      in if is_rooted s then CHR ''/'' # join_slash elems
         else if elems = [] then ''.''
         else join_slash elems)"

text \<open>
  \<open>filepath.Join(a, b)\<close>: empty elements are ignored, the rest is joined with the
  separator and cleaned; the result is empty only when both are.
\<close>

definition Join :: "string \<Rightarrow> string \<Rightarrow> string" where
  "Join a b =
     (if a \<noteq> [] then Clean (a @ CHR ''/'' # b)
      else if b \<noteq> [] then Clean b
      else [])"

text \<open>\<open>filepath.Dir(p)\<close>: \<open>p\<close> up to and including its last separator, cleaned.\<close>

definition Dir :: "string \<Rightarrow> string" where
  "Dir p = Clean (take (nat (LastIndex p (CHR ''/'') + 1)) p)"

subsection \<open>The world: a file system and a trace\<close>

text \<open>
  A resolved path is the list of names from the root. The root is a directory that always
  exists; every other node is in the finite map \<open>nodes\<close>. A directory records the permission argument it
  was made with (before umask); a file records that and its bytes. \<open>denied\<close> holds the
  paths the process may not create, write or remove (the source of \<open>EACCES\<close>), and
  \<open>close_err\<close> the error that closing a file opened at a path returns, if any.
\<close>

type_synonym fpath = "string list"
type_synonym FileMode = "32 word"
type_synonym bytes = string

datatype node = DirN FileMode | FileN FileMode bytes

datatype event =
    SetValue real                 \<comment> \<open>progress.SetValue(v)\<close>
  | SetText string                \<comment> \<open>status.SetText(s)\<close>
  | ZipOpen string                \<comment> \<open>file.Open() of the archive entry named\<close>
  | SysMkdirAll string FileMode   \<comment> \<open>os.MkdirAll(path, perm)\<close>
  | SysOpenFile string FileMode   \<comment> \<open>os.OpenFile(path, O\_WRONLY|O\_CREATE|O\_TRUNC, perm)\<close>
  | SysWrite fpath                \<comment> \<open>io.Copy or Write to the file opened at the path\<close>
  | SysOpen string                \<comment> \<open>os.Open(path)\<close>
  | SysStat string                \<comment> \<open>os.Stat(path)\<close>
  | SysRun string string          \<comment> \<open>exec.Command(name, arg).Run()\<close>
  | SysRemove string              \<comment> \<open>os.Remove(path)\<close>
  | SysRemoveAll string           \<comment> \<open>os.RemoveAll(path)\<close>
  | SysClose fpath                \<comment> \<open>Close() of the file opened at the path\<close>
  | ZipClose string               \<comment> \<open>Close() of the reader of the archive entry named\<close>

record world =
  cwd :: fpath
  nodes :: "(fpath, node) fmap"
  denied :: "fpath \<Rightarrow> bool"
  close_err :: "fpath \<Rightarrow> error option"
  trace :: "event list"

abbreviation node_at :: "world \<Rightarrow> fpath \<Rightarrow> node option" where
  "node_at w p \<equiv> fmlookup (nodes w) p"

definition emit :: "event \<Rightarrow> world \<Rightarrow> world" where
  "emit ev w = w\<lparr>trace := trace w @ [ev]\<rparr>"

definition is_dir :: "world \<Rightarrow> fpath \<Rightarrow> bool" where
  "is_dir w p = (case node_at w p of Some (DirN m) \<Rightarrow> True | Some (FileN m c) \<Rightarrow> False | None \<Rightarrow> p = [])"

definition present :: "world \<Rightarrow> fpath \<Rightarrow> bool" where
  "present w p = (p = [] \<or> node_at w p \<noteq> None)"

text \<open>The file system is a tree: the root is not stored, and every node lies in a directory.\<close>

definition wf_world :: "world \<Rightarrow> bool" where
  "wf_world w = (\<forall>p \<in> fmdom' (nodes w). p \<noteq> [] \<and> is_dir w (butlast p))"

text \<open>
  How the kernel reads a path string: from the root when it starts with \<open>/\<close>, else from
  the working directory; empty elements and \<open>.\<close> stay, \<open>..\<close> goes to the parent (the
  root is its own parent). The empty string names nothing. The reading is lexical: it is
  the kernel's when no \<open>..\<close> follows a name, as in every path \<open>filepath.Clean\<close> returns.
\<close>

fun walk :: "fpath \<Rightarrow> string list \<Rightarrow> fpath" where
  "walk acc [] = acc"
| "walk acc (c # cs) =
     (if c = [] \<or> c = ''.'' then walk acc cs
      else if c = ''..'' then walk (butlast acc) cs
      else walk (acc @ [c]) cs)"

definition resolve :: "fpath \<Rightarrow> string \<Rightarrow> fpath option" where
  "resolve wd s =
     (if s = [] then None
      else Some (walk (if is_rooted s then [] else wd) (split_slash s)))"

subsection \<open>The os and io calls the installer makes\<close>

text \<open>
  The error of looking up a path \<open>p\<close> that is not there: \<open>ENOTDIR\<close> when a name on the
  way to it is there and is no directory, \<open>ENOENT\<close> otherwise.
\<close>

definition lookup_error :: "world \<Rightarrow> fpath \<Rightarrow> error" where
  "lookup_error w p =
     (if \<exists>q \<in> set (prefixes (butlast p)). present w q \<and> \<not> is_dir w q then ENOTDIR else ENOENT)"

text \<open>\<open>mkdir(2)\<close> at a resolved path.\<close>

definition mkdir :: "fpath \<Rightarrow> FileMode \<Rightarrow> world \<Rightarrow> result \<times> world" where
  "mkdir p perm w =
     (if present w p then (Err EEXIST, w)
      else if \<not> is_dir w (butlast p) then (Err (lookup_error w p), w)
      else if denied w p then (Err EACCES, w)
      else (Nil, w\<lparr>nodes := fmupd p (DirN perm) (nodes w)\<rparr>))"

text \<open>
  \<open>os.MkdirAll\<close>, as the library does it: a path that is a directory is done; one that
  exists and is not a directory is \<open>ENOTDIR\<close>; otherwise the parent is made first, then
  the directory itself, and an error of that \<open>Mkdir\<close> is forgiven when the directory is
  there after all.
\<close>

function mkdir_all :: "fpath \<Rightarrow> FileMode \<Rightarrow> world \<Rightarrow> result \<times> world" where
  "mkdir_all p perm w =
     (if is_dir w p then (Nil, w)
      else if present w p then (Err ENOTDIR, w)
      else (case mkdir_all (butlast p) perm w of
              (Nil, w1) \<Rightarrow>
                (case mkdir p perm w1 of
                   (Nil, w2) \<Rightarrow> (Nil, w2)
                 | (r, w2) \<Rightarrow> if is_dir w2 p then (Nil, w2) else (r, w2))
            | (r, w1) \<Rightarrow> (r, w1)))"
  by pat_completeness auto
termination
  by (relation "measure (\<lambda>(p, perm, w). length p)") (auto simp: is_dir_def present_def split: option.splits)

definition MkdirAll :: "string \<Rightarrow> FileMode \<Rightarrow> world \<Rightarrow> result \<times> world" where
  "MkdirAll path perm w =
     (let w0 = emit (SysMkdirAll path perm) w
      in case resolve (cwd w0) path of
           None \<Rightarrow> (Err ENOENT, w0)
         | Some p \<Rightarrow> mkdir_all p perm w0)"

text \<open>
  \<open>os.OpenFile(path, O_WRONLY|O_CREATE|O_TRUNC, perm)\<close>: an existing file is emptied and
  keeps its mode, a missing one is created with \<open>perm\<close> in its parent directory. The
  handle returned is the resolved path of the open file.
\<close>

definition OpenFile :: "string \<Rightarrow> FileMode \<Rightarrow> world \<Rightarrow> (error + fpath) \<times> world" where
  "OpenFile path perm w =
     (let w0 = emit (SysOpenFile path perm) w
      in case resolve (cwd w0) path of
           None \<Rightarrow> (Inl ENOENT, w0)
         | Some p \<Rightarrow>
             if is_dir w0 p then (Inl EISDIR, w0)
             else (case node_at w0 p of
                     Some (FileN m c) \<Rightarrow>
                       if denied w0 p then (Inl EACCES, w0)
                       else (Inr p, w0\<lparr>nodes := fmupd p (FileN m []) (nodes w0)\<rparr>)
                   | _ \<Rightarrow>
                       if \<not> is_dir w0 (butlast p) then (Inl (lookup_error w0 p), w0)
                       else if denied w0 p then (Inl EACCES, w0)
                       else (Inr p, w0\<lparr>nodes := fmupd p (FileN perm []) (nodes w0)\<rparr>)))"

text \<open>Writing \<open>data\<close> from offset 0 into the file open at \<open>h\<close>; bytes beyond it stay.\<close>

definition write_file :: "fpath \<Rightarrow> bytes \<Rightarrow> world \<Rightarrow> world" where
  "write_file h data w =
     (let w0 = emit (SysWrite h) w
      in case node_at w0 h of
           Some (FileN m c) \<Rightarrow> w0\<lparr>nodes := fmupd h (FileN m (data @ drop (length data) c)) (nodes w0)\<rparr>
         | _ \<Rightarrow> w0)"

text \<open>\<open>Close()\<close> of the file opened at \<open>h\<close>.\<close>

definition Close :: "fpath \<Rightarrow> world \<Rightarrow> error option \<times> world" where
  "Close h w = (close_err w h, emit (SysClose h) w)"

text \<open>
  \<open>defer func() { if err := c.Close(); err != nil { panic(err) } }()\<close>: when the
  function body is done with \<open>(r, w)\<close>, the close \<open>cl\<close> runs, and its error, if any,
  becomes a panic in place of the result.
\<close>

definition deferred_close :: "(world \<Rightarrow> error option \<times> world) \<Rightarrow> result \<times> world \<Rightarrow> result \<times> world" where
  "deferred_close cl rw =
     (case cl (snd rw) of
        (None, w') \<Rightarrow> (fst rw, w')
      | (Some err, w') \<Rightarrow> (Panic err, w'))"

text \<open>\<open>os.Open(path)\<close>: opens a file or a directory for reading.\<close>

definition Open :: "string \<Rightarrow> world \<Rightarrow> (error + fpath) \<times> world" where
  "Open path w =
     (let w0 = emit (SysOpen path) w
      in case resolve (cwd w0) path of
           None \<Rightarrow> (Inl ENOENT, w0)
         | Some p \<Rightarrow> if present w0 p then (Inr p, w0) else (Inl (lookup_error w0 p), w0))"

text \<open>\<open>os.Stat(path)\<close>; only whether it fails is used.\<close>

definition Stat :: "string \<Rightarrow> world \<Rightarrow> (error + fpath) \<times> world" where
  "Stat path w =
     (let w0 = emit (SysStat path) w
      in case resolve (cwd w0) path of
           None \<Rightarrow> (Inl ENOENT, w0)
         | Some p \<Rightarrow> if present w0 p then (Inr p, w0) else (Inl (lookup_error w0 p), w0))"

text \<open>\<open>os.Create(path)\<close> is \<open>OpenFile(path, O_RDWR|O_CREATE|O_TRUNC, 0666)\<close>; octal 666 is 0x1B6.\<close>

definition Create :: "string \<Rightarrow> world \<Rightarrow> (error + fpath) \<times> world" where
  "Create path w = OpenFile path 0x1B6 w"

text \<open>\<open>io.Copy(outFile, inFile)\<close> between two open files: reading a directory fails.\<close>

definition io_Copy :: "fpath \<Rightarrow> fpath \<Rightarrow> world \<Rightarrow> result \<times> world" where
  "io_Copy outFile inFile w =
     (case node_at w inFile of
        Some (FileN m c) \<Rightarrow> (Nil, write_file outFile c w)
      | _ \<Rightarrow> (Err EISDIR, w))"

text \<open>
  \<open>ioutil.WriteFile(path, data, perm)\<close>: open as above, write, close; the error of the
  close is returned.
\<close>

definition WriteFile :: "string \<Rightarrow> bytes \<Rightarrow> FileMode \<Rightarrow> world \<Rightarrow> result \<times> world" where
  "WriteFile path data perm w =
     (case OpenFile path perm w of
        (Inl err, w1) \<Rightarrow> (Err err, w1)
      | (Inr h, w1) \<Rightarrow>
          (case Close h (write_file h data w1) of
             (None, w2) \<Rightarrow> (Nil, w2)
           | (Some err, w2) \<Rightarrow> (Err err, w2)))"

definition has_child :: "world \<Rightarrow> fpath \<Rightarrow> bool" where
  "has_child w p = (\<exists>q \<in> fmdom' (nodes w). strict_prefix p q)"

text \<open>\<open>os.Remove(path)\<close>: removes a file or an empty directory.\<close>

definition Remove :: "string \<Rightarrow> world \<Rightarrow> result \<times> world" where
  "Remove path w =
     (let w0 = emit (SysRemove path) w
      in case resolve (cwd w0) path of
           None \<Rightarrow> (Err ENOENT, w0)
         | Some p \<Rightarrow>
             if node_at w0 p = None then (Err (if p = [] then EACCES else lookup_error w0 p), w0)
             else if denied w0 p then (Err EACCES, w0)
             else if is_dir w0 p \<and> has_child w0 p then (Err ENOTEMPTY, w0)
             else (Nil, w0\<lparr>nodes := fmdrop p (nodes w0)\<rparr>))"



subsection \<open>Archive entries\<close>

text \<open>
  What \<open>zip.NewReader\<close> gives for one entry (\<open>*zip.File\<close>): its name, its mode, whether
  \<open>file.Open()\<close> fails, the bytes its reader delivers, the error that ends the
  reading, if any (a checksum error comes after the bytes), and the error of closing the
  reader, if any. \<open>FileInfo().IsDir()\<close> is the directory bit of the mode,
  \<open>ModeDir = 1 << 31\<close>.
\<close>

record entry =
  Name :: string
  Mode :: FileMode
  OpenErr :: "zip_error option"
  Data :: bytes
  ReadErr :: "zip_error option"
  CloseErr :: "zip_error option"

definition ModeDir :: FileMode where
  "ModeDir = 0x80000000"

definition IsDir :: "entry \<Rightarrow> bool" where
  "IsDir file = (Mode file AND ModeDir \<noteq> 0)"

text \<open>\<open>io.Copy(outFile, readCloser)\<close> from an entry's reader into the open file.\<close>

definition copy_entry :: "fpath \<Rightarrow> entry \<Rightarrow> world \<Rightarrow> result \<times> world" where
  "copy_entry outFile file w =
     (let w1 = write_file outFile (Data file) w
      in case ReadErr file of None \<Rightarrow> (Nil, w1) | Some err \<Rightarrow> (Err (ErrZip err), w1))"

text \<open>\<open>readCloser.Close()\<close> of an entry's reader.\<close>

definition zip_Close :: "entry \<Rightarrow> world \<Rightarrow> error option \<times> world" where
  "zip_Close file w = (map_option ErrZip (CloseErr file), emit (ZipClose (Name file)) w)"

subsection \<open>Extract\<close>

text \<open>
  The closure \<open>extractAndWrite\<close> of \<open>Extract\<close>; \<open>output\<close> is the variable it captures.
  \<open>write_entry\<close> is its body from \<open>filepath.Join\<close> on, between the opening of the
  entry's reader and the deferred close of that reader.
\<close>

definition write_entry :: "string \<Rightarrow> entry \<Rightarrow> world \<Rightarrow> result \<times> world" where
  "write_entry output file w0 =
     (let path = Join output (Name file)
      in if IsDir file then MkdirAll path (Mode file) w0
         else (case MkdirAll (Dir path) (Mode file) w0 of
                 (Nil, w1) \<Rightarrow>
                   (case OpenFile path (Mode file) w1 of
                      (Inl err, w2) \<Rightarrow> (Err err, w2)
                    | (Inr outFile, w2) \<Rightarrow>
                        deferred_close (Close outFile) (copy_entry outFile file w2))
               | (r, w1) \<Rightarrow> (r, w1)))"

definition extractAndWrite :: "string \<Rightarrow> entry \<Rightarrow> world \<Rightarrow> result \<times> world" where
  "extractAndWrite output file w =
     (let w0 = emit (ZipOpen (Name file)) w
      in case OpenErr file of
           Some err \<Rightarrow> (Err (ErrZip err), w0)
         | None \<Rightarrow> deferred_close (zip_Close file) (write_entry output file w0))"

text \<open>
  The loop of \<open>Extract\<close> over \<open>reader.File\<close>: \<open>n\<close> is \<open>len(reader.File)\<close>, \<open>i\<close> the index
  of the first entry of the list still to do. The quotient of the two \<open>float64\<close> is taken
  as the exact quotient.
\<close>

fun Extract_loop :: "string \<Rightarrow> nat \<Rightarrow> nat \<Rightarrow> entry list \<Rightarrow> world \<Rightarrow> result \<times> world" where
  "Extract_loop output n i [] w = (Nil, w)"
| "Extract_loop output n i (file # rest) w =
     (let w1 = emit (SetValue (real (i + 1) / real n)) w
      in case extractAndWrite output file w1 of
           (Nil, w2) \<Rightarrow> Extract_loop output n (i + 1) rest w2
         | (r, w2) \<Rightarrow> (r, w2))"

text \<open>\<open>Extract\<close>; \<open>input\<close> is what \<open>zip.NewReader\<close> made of the bytes.\<close>

definition Extract :: "error + entry list \<Rightarrow> string \<Rightarrow> world \<Rightarrow> result \<times> world" where
  "Extract input output w =
     (case input of
        Inl err \<Rightarrow> (Err err, w)
      | Inr files \<Rightarrow> Extract_loop output (length files) 0 files w)"

subsection \<open>Copy\<close>

definition Copy :: "string \<Rightarrow> string \<Rightarrow> world \<Rightarrow> result \<times> world" where
  "Copy input output w =
     (case Open input w of
        (Inl err, w1) \<Rightarrow> (Err err, w1)
      | (Inr inFile, w1) \<Rightarrow>
          deferred_close (Close inFile)
            (case Stat output w1 of
               (Inr info, w2) \<Rightarrow> (Nil, w2)
             | (Inl err, w2) \<Rightarrow>
                 (case Create output w2 of
                    (Inl err, w3) \<Rightarrow> (Err err, w3)
                  | (Inr outFile, w3) \<Rightarrow>
                      deferred_close (Close outFile) (io_Copy outFile inFile w3))))"

subsection \<open>Install, CreateShortcut, Uninstall\<close>

text \<open>
  \<open>Install\<close>; \<open>payload\<close> is what decoding the embedded data gave: the base64 error, or
  what \<open>zip.NewReader\<close> made of the bytes. Octal 700 is 0x1C0.
\<close>

definition Install :: "string \<Rightarrow> error + string \<Rightarrow> error + (error + entry list) \<Rightarrow> world \<Rightarrow> result \<times> world" where
  "Install goos cur payload w =
     (case GetInstallPath goos cur of
        Inl e \<Rightarrow> (Panic e, w)
      | Inr dir \<Rightarrow>
          (case MkdirAll dir 0x1C0 w of
             (Nil, w1) \<Rightarrow>
               (case payload of
                  Inl err \<Rightarrow> (Err err, w1)
                | Inr data \<Rightarrow> Extract data dir (emit (SetText ''Installing...'') w1))
           | (r, w1) \<Rightarrow> (r, w1)))"

definition desktop_entry :: "string \<Rightarrow> string" where
  "desktop_entry dir =
     ''[Desktop Entry]'' @ [CHR 0x0A] @ ''Name='' @ appName @ [CHR 0x0A] @ ''Type=Application'' @ [CHR 0x0A]
     @ ''Terminal=false'' @ [CHR 0x0A] @ ''Exec='' @ (dir @ appName) @ [CHR 0x0A] @ ''Icon='' @ (dir @ appName)"

definition vbs_script :: "string \<Rightarrow> string \<Rightarrow> string \<Rightarrow> string" where
  "vbs_script link target icon =
     ''Set link = WScript.CreateObject('' @ [CHR 0x22] @ ''WScript.Shell'' @ [CHR 0x22]
     @ '').CreateShortcut('' @ [CHR 0x22] @ link @ [CHR 0x22] @ '')'' @ [CHR 0x0A]
     @ ''link.TargetPath = '' @ [CHR 0x22] @ target @ [CHR 0x22] @ [CHR 0x0A]
     @ ''link.IconLocation = '' @ [CHR 0x22] @ icon @ [CHR 0x22] @ [CHR 0x0A]
     @ ''link.Description = '' @ [CHR 0x22] @ appName @ [CHR 0x22] @ [CHR 0x0A] @ ''link.Save''"

text \<open>
  \<open>exec.Command(name, arg).Run()\<close>: the command is outside the program, so what it does
  is a parameter \<open>host\<close>: from the argument and the world, the error of \<open>Run\<close> (if any)
  and the nodes of the file system afterwards.
\<close>

definition Run :: "(string \<Rightarrow> world \<Rightarrow> error option \<times> (fpath, node) fmap) \<Rightarrow> string \<Rightarrow> string \<Rightarrow> world \<Rightarrow> result \<times> world" where
  "Run host name arg w =
     (let w0 = emit (SysRun name arg) w
      in case host arg w0 of
           (None, ns) \<Rightarrow> (Nil, w0\<lparr>nodes := ns\<rparr>)
         | (Some err, ns) \<Rightarrow> (Err err, w0\<lparr>nodes := ns\<rparr>))"

text \<open>\<open>CreateShortcut\<close>. Octal 700 is 0x1C0, octal 777 is 0x1FF.\<close>

definition CreateShortcut :: "(string \<Rightarrow> world \<Rightarrow> error option \<times> (fpath, node) fmap) \<Rightarrow> string \<Rightarrow> error + string \<Rightarrow> world \<Rightarrow> result \<times> world" where
  "CreateShortcut host goos cur w =
     (if goos = ''darwin'' then (Nil, w)
      else if goos = ''linux'' then
        (case (GetInstallPath goos cur, GetShortcutLocation goos cur) of
           (Inr dir, Inr loc) \<Rightarrow> WriteFile loc (desktop_entry dir) 0x1C0 w
         | (Inl e, _) \<Rightarrow> (Panic e, w)
         | (_, Inl e) \<Rightarrow> (Panic e, w))
      else if goos = ''windows'' then
        (case (GetInstallPath goos cur, GetShortcutLocation goos cur, GetTempPath goos cur) of
           (Inr dir, Inr loc, Inr tmp) \<Rightarrow>
             (let target = dir @ GetExecutableName goos;
                  icon = dir @ appName;
                  vbs = vbs_script loc target icon;
                  scriptFile = tmp @ ''CreateShortcut.vbs''
              in case WriteFile scriptFile vbs 0x1FF w of
                   (Nil, w1) \<Rightarrow>
                     (case Run host ''wscript'' scriptFile w1 of
                        (Nil, w2) \<Rightarrow> Remove scriptFile w2
                      | (r, w2) \<Rightarrow> (r, w2))
                 | (r, w1) \<Rightarrow> (r, w1))
         | (Inl e, _) \<Rightarrow> (Panic e, w)
         | (_, Inl e, _) \<Rightarrow> (Panic e, w)
         | (_, _, Inl e) \<Rightarrow> (Panic e, w))
      else (Nil, w))"


subsection \<open>Observations of the file system\<close>

text \<open>
  \<open>grows p perm w w'\<close>: from \<open>w\<close> to \<open>w'\<close> nothing changed but that missing directories
  on the way to \<open>p\<close> were made with \<open>perm\<close>.
\<close>

definition grows :: "fpath \<Rightarrow> FileMode \<Rightarrow> world \<Rightarrow> world \<Rightarrow> bool" where
  "grows p perm w w' \<longleftrightarrow>
     cwd w' = cwd w \<and> denied w' = denied w \<and> close_err w' = close_err w \<and> trace w' = trace w
     \<and> (\<forall>q. node_at w' q = node_at w q
            \<or> (node_at w q = None \<and> node_at w' q = Some (DirN perm) \<and> prefix q p \<and> q \<noteq> []))
     \<and> (wf_world w \<longrightarrow> wf_world w')"



subsection \<open>Reading a trace\<close>

text \<open>The progress values in a list of events, in order.\<close>

fun progress_of :: "event list \<Rightarrow> real list" where
  "progress_of [] = []"
| "progress_of (SetValue v # evs) = v # progress_of evs"
| "progress_of (ev # evs) = progress_of evs"

text \<open>The events a run added to the trace, and the progress values it reported.\<close>

definition added :: "world \<Rightarrow> world \<Rightarrow> event list" where
  "added w w' = drop (length (trace w)) (trace w')"


text \<open>
  A list of events that is one block per archive entry, from entry \<open>i\<close> on, of \<open>n\<close>
  entries: the report \<open>(i+1)/n\<close> first, then the events of that entry.
\<close>

fun blocks :: "nat \<Rightarrow> nat \<Rightarrow> event list list \<Rightarrow> event list" where
  "blocks n i [] = []"
| "blocks n i (evs # rest) = SetValue (real (i + 1) / real n) # evs @ blocks n (i + 1) rest"

text \<open>The events of processing the entry \<open>file\<close>: its \<open>file.Open()\<close> first, no report.\<close>

definition entry_events :: "entry \<Rightarrow> event list \<Rightarrow> bool" where
  "entry_events file evs = (evs \<noteq> [] \<and> hd evs = ZipOpen (Name file) \<and> progress_of evs = [])"

subsection \<open>Worlds and archives used as examples\<close>

text \<open>
  A Unix machine with \<open>/srv\<close> (the working directory), \<open>/tmp\<close>, \<open>/tmp/out\<close> and the
  files \<open>/tmp/a.txt\<close> and \<open>/tmp/b.txt\<close>; octal 755 is 0x1ED, octal 644 is 0x1A4.
\<close>

definition unix_world :: world where
  "unix_world =
     \<lparr>cwd = [''srv''],
      nodes = fmap_of_list
        [([''srv''], DirN 0x1ED), ([''tmp''], DirN 0x1ED), ([''tmp'', ''out''], DirN 0x1ED),
         ([''tmp'', ''a.txt''], FileN 0x1A4 ''old''), ([''tmp'', ''b.txt''], FileN 0x1A4 ''new'')],
      denied = (\<lambda>p. False), close_err = (\<lambda>p. None), trace = []\<rparr>"

text \<open>
  A Windows machine with alice's temporary directory. A path \<open>C:/a/b\<close> is read with the
  drive as its first name, from the working directory \<open>[]\<close>.
\<close>

definition win_world :: world where
  "win_world =
     \<lparr>cwd = [],
      nodes = fmap_of_list
        [([''C:''], DirN 0x1ED), ([''C:'', ''Users''], DirN 0x1ED),
         ([''C:'', ''Users'', ''alice''], DirN 0x1ED),
         ([''C:'', ''Users'', ''alice'', ''AppData''], DirN 0x1ED),
         ([''C:'', ''Users'', ''alice'', ''AppData'', ''Local''], DirN 0x1ED),
         ([''C:'', ''Users'', ''alice'', ''AppData'', ''Local'', ''Temp''], DirN 0x1ED)],
      denied = (\<lambda>p. False), close_err = (\<lambda>p. None), trace = []\<rparr>"

text \<open>A script host that fails and touches no file.\<close>

text \<open>The archive of the end-to-end scenario, and entries that fail or escape.\<close>

definition assets_dir :: entry where
  "assets_dir = \<lparr>Name = ''assets/'', Mode = 0x800001ED, OpenErr = None, Data = [], ReadErr = None, CloseErr = None\<rparr>"

definition readme :: entry where
  "readme = \<lparr>Name = ''assets/readme.txt'', Mode = 0x1A4, OpenErr = None, Data = ''hello'', ReadErr = None, CloseErr = None\<rparr>"

definition deep :: entry where
  "deep = \<lparr>Name = ''a/b/c.txt'', Mode = 0x1A4, OpenErr = None, Data = ''deep'', ReadErr = None, CloseErr = None\<rparr>"

definition broken :: entry where
  "broken = \<lparr>Name = ''broken.bin'', Mode = 0x1A4, OpenErr = Some ErrAlgorithm, Data = [], ReadErr = None, CloseErr = None\<rparr>"


definition failing_host :: "string \<Rightarrow> world \<Rightarrow> error option \<times> (fpath, node) fmap" where
  "failing_host arg w = (Some ErrExit, nodes w)"

section \<open>Properties\<close>

subsection \<open>Basic facts about the world\<close>

lemma emit_fields [simp]:
  "cwd (emit ev w) = cwd w" "nodes (emit ev w) = nodes w" "denied (emit ev w) = denied w"
  "close_err (emit ev w) = close_err w" "trace (emit ev w) = trace w @ [ev]"
  by (simp_all add: emit_def)

lemma is_dir_emit [simp]: "is_dir (emit ev w) p = is_dir w p"
  by (simp add: is_dir_def)

lemma present_emit [simp]: "present (emit ev w) p = present w p"
  by (simp add: present_def)


lemma lookup_error_emit [simp]: "lookup_error (emit ev w) p = lookup_error w p"
  by (simp add: lookup_error_def)

lemma lookup_error_cases: "lookup_error w p = ENOENT \<or> lookup_error w p = ENOTDIR"
  by (simp add: lookup_error_def)

lemma lookup_error_ENOENT:
  assumes "lookup_error w p = ENOENT" and "\<not> is_dir w (butlast p)"
  shows "\<not> present w (butlast p)"
proof -
  have "butlast p \<in> set (prefixes (butlast p))"
    by simp
  with assms(1) have "\<not> (present w (butlast p) \<and> \<not> is_dir w (butlast p))"
    by (auto simp: lookup_error_def split: if_splits)
  with assms(2) show ?thesis
    by blast
qed

lemma deferred_Close:
  "deferred_close (Close h) (r, w) = (r', w') \<Longrightarrow>
   w' = emit (SysClose h) w \<and> (r' = r \<or> (\<exists>e. r' = Panic e \<and> close_err w h = Some e))"
  by (auto simp: deferred_close_def Close_def split: option.splits)

lemma deferred_zip_Close:
  "deferred_close (zip_Close f) (r, w) = (r', w') \<Longrightarrow>
   w' = emit (ZipClose (Name f)) w \<and> (r' = r \<or> (\<exists>e. r' = Panic (ErrZip e) \<and> CloseErr f = Some e))"
  by (auto simp: deferred_close_def zip_Close_def split: option.splits)

subsection \<open>What the calls leave in the trace\<close>

declare mkdir_all.simps [simp del]

lemma mkdir_fields:
  "cwd (snd (mkdir p perm w)) = cwd w" "denied (snd (mkdir p perm w)) = denied w"
  "trace (snd (mkdir p perm w)) = trace w"
  by (simp_all add: mkdir_def)

lemma mkdir_all_fields:
  "cwd (snd (mkdir_all p perm w)) = cwd w \<and> denied (snd (mkdir_all p perm w)) = denied w
   \<and> trace (snd (mkdir_all p perm w)) = trace w"
proof (induction p perm w rule: mkdir_all.induct)
  case (1 p perm w)
  show ?case
  proof (cases "is_dir w p \<or> present w p")
    case True
    then show ?thesis by (auto simp: mkdir_all.simps [of p perm w])
  next
    case False
    obtain r w1 where a: "mkdir_all (butlast p) perm w = (r, w1)"
      by (cases "mkdir_all (butlast p) perm w")
    obtain r2 w2 where b: "mkdir p perm w1 = (r2, w2)"
      by (cases "mkdir p perm w1")
    from "1.IH" False a have ih: "cwd w1 = cwd w \<and> denied w1 = denied w \<and> trace w1 = trace w"
      by simp
    from mkdir_fields [of p perm w1] b have m: "cwd w2 = cwd w1 \<and> denied w2 = denied w1 \<and> trace w2 = trace w1"
      by simp
    show ?thesis
      using False ih m
      by (cases r; cases r2) (simp_all add: mkdir_all.simps [of p perm w] a b)
  qed
qed

lemma MkdirAll_trace:
  "trace (snd (MkdirAll path perm w)) = trace w @ [SysMkdirAll path perm]"
  by (simp add: MkdirAll_def Let_def mkdir_all_fields split: option.splits)

lemma OpenFile_trace:
  "trace (snd (OpenFile path perm w)) = trace w @ [SysOpenFile path perm]"
  by (simp add: OpenFile_def Let_def split: option.splits node.splits)

lemma write_file_trace:
  "trace (write_file h d w) = trace w @ [SysWrite h]"
  by (simp add: write_file_def Let_def split: option.splits node.splits)

lemma copy_entry_trace:
  "trace (snd (copy_entry h file w)) = trace w @ [SysWrite h]"
  by (simp add: copy_entry_def Let_def write_file_trace split: option.splits)

lemma deferred_Close_trace:
  "trace (snd (deferred_close (Close h) rw)) = trace (snd rw) @ [SysClose h]"
  by (simp add: deferred_close_def Close_def split: option.splits)

lemma deferred_zip_Close_trace:
  "trace (snd (deferred_close (zip_Close f) rw)) = trace (snd rw) @ [ZipClose (Name f)]"
  by (simp add: deferred_close_def zip_Close_def split: option.splits)

subsection \<open>The file system as a tree\<close>

lemma wf_world_iff:
  "wf_world w \<longleftrightarrow> (\<forall>p n. node_at w p = Some n \<longrightarrow> p \<noteq> [] \<and> is_dir w (butlast p))"
  by (auto simp: wf_world_def fmlookup_dom'_iff [symmetric])

lemma is_dir_present: "is_dir w p \<Longrightarrow> present w p"
  by (auto simp: is_dir_def present_def split: option.splits)

lemma wf_root: "wf_world w \<Longrightarrow> node_at w [] = None"
  by (cases "node_at w []") (auto simp: wf_world_iff)

lemma is_dir_root: "wf_world w \<Longrightarrow> is_dir w []"
  by (simp add: is_dir_def wf_root)

lemma wf_present_butlast: "wf_world w \<Longrightarrow> present w p \<Longrightarrow> is_dir w (butlast p)"
  by (cases "p = []") (auto simp: wf_world_iff present_def is_dir_root)

lemma wf_present_take: "wf_world w \<Longrightarrow> present w p \<Longrightarrow> k < length p \<Longrightarrow> is_dir w (take k p)"
proof (induction "length p - k" arbitrary: k)
  case 0
  then show ?case by simp
next
  case (Suc d)
  show ?case
  proof (cases "Suc k = length p")
    case True
    then have "k = length p - 1"
      by simp
    then have "take k p = butlast p"
      by (simp add: butlast_conv_take)
    with Suc.prems show ?thesis
      by (simp add: wf_present_butlast)
  next
    case False
    with Suc have "is_dir w (take (Suc k) p)"
      by simp
    then have "is_dir w (butlast (take (Suc k) p))"
      using Suc.prems(1) by (intro wf_present_butlast is_dir_present)
    moreover have "butlast (take (Suc k) p) = take k p"
      using Suc.prems(3) by (simp add: butlast_take)
    ultimately show ?thesis by simp
  qed
qed

lemma wf_strict_prefix_is_dir:
  "wf_world w \<Longrightarrow> present w p \<Longrightarrow> strict_prefix q p \<Longrightarrow> is_dir w q"
proof -
  assume a: "wf_world w" "present w p" "strict_prefix q p"
  then obtain zs where p: "p = q @ zs" "zs \<noteq> []"
    by (auto simp: strict_prefix_def prefix_def)
  then have "take (length q) p = q" "length q < length p"
    by simp_all
  with wf_present_take [OF a(1,2), of "length q"] show ?thesis
    by simp
qed

lemma wf_prefix_is_dir:
  "wf_world w \<Longrightarrow> is_dir w p \<Longrightarrow> prefix q p \<Longrightarrow> is_dir w q"
  using wf_strict_prefix_is_dir [of w p q] is_dir_present [of w p]
  by (cases "q = p") (auto simp: strict_prefix_def)

lemma wf_add_node:
  assumes "wf_world w" "p \<noteq> []" "is_dir w (butlast p)" "node_at w p = None"
  shows "wf_world (w\<lparr>nodes := fmupd p n (nodes w)\<rparr>)"
  unfolding wf_world_iff
proof (intro allI impI)
  fix q m
  assume q: "node_at (w\<lparr>nodes := fmupd p n (nodes w)\<rparr>) q = Some m"
  have keep: "is_dir w t \<Longrightarrow> is_dir (w\<lparr>nodes := fmupd p n (nodes w)\<rparr>) t" for t
    using assms(2,4) by (auto simp: is_dir_def split: option.splits)
  show "q \<noteq> [] \<and> is_dir (w\<lparr>nodes := fmupd p n (nodes w)\<rparr>) (butlast q)"
  proof (cases "q = p")
    case True
    with assms(2,3) keep show ?thesis by simp
  next
    case False
    with q have "node_at w q = Some m" by simp
    with assms(1) have "q \<noteq> [] \<and> is_dir w (butlast q)"
      by (simp add: wf_world_iff)
    with keep show ?thesis by simp
  qed
qed

lemma wf_change_file:
  assumes "wf_world w" "node_at w p = Some (FileN m c)"
  shows "wf_world (w\<lparr>nodes := fmupd p (FileN m' c') (nodes w)\<rparr>)"
proof -
  have same: "is_dir (w\<lparr>nodes := fmupd p (FileN m' c') (nodes w)\<rparr>) t = is_dir w t" for t
    using assms(2) by (auto simp: is_dir_def split: option.splits)
  show ?thesis
    using assms by (auto simp: wf_world_iff same split: if_splits)
qed

lemma wf_world_trace [simp]: "wf_world (w\<lparr>trace := t\<rparr>) = wf_world w"
  by (simp add: wf_world_def is_dir_def)

lemma wf_world_emit [simp]: "wf_world (emit ev w) = wf_world w"
  by (simp add: emit_def)

subsection \<open>mkdir and MkdirAll\<close>

lemma mkdir_cases:
  assumes "mkdir p perm w = (r, w')"
  shows "(r = Nil \<and> w' = w\<lparr>nodes := fmupd p (DirN perm) (nodes w)\<rparr>
              \<and> node_at w p = None \<and> p \<noteq> [] \<and> is_dir w (butlast p))
         \<or> (r \<noteq> Nil \<and> w' = w \<and> (\<exists>e. r = Err e) \<and> (is_dir w (butlast p) \<longrightarrow> r = Err EEXIST \<or> r = Err EACCES))"
  using assms by (auto simp: mkdir_def present_def split: if_splits)

lemma grows_refl: "grows p perm w w"
  by (simp add: grows_def)

lemma grows_trans:
  assumes "grows (butlast p) perm w w1" and "grows p perm w1 w2"
  shows "grows p perm w w2"
proof -
  have pb: "prefix q (butlast p) \<Longrightarrow> prefix q p" for q
    using prefixeq_butlast [of p] by (rule prefix_order.order_trans [rotated])
  from assms have f: "cwd w2 = cwd w" "denied w2 = denied w" "close_err w2 = close_err w"
      "trace w2 = trace w" "wf_world w \<longrightarrow> wf_world w2"
    by (simp_all add: grows_def)
  have n: "node_at w2 q = node_at w q
            \<or> (node_at w q = None \<and> node_at w2 q = Some (DirN perm) \<and> prefix q p \<and> q \<noteq> [])" for q
  proof -
    from assms(1) have a: "node_at w1 q = node_at w q
            \<or> (node_at w q = None \<and> node_at w1 q = Some (DirN perm) \<and> prefix q (butlast p) \<and> q \<noteq> [])"
      by (simp add: grows_def)
    from assms(2) have b: "node_at w2 q = node_at w1 q
            \<or> (node_at w1 q = None \<and> node_at w2 q = Some (DirN perm) \<and> prefix q p \<and> q \<noteq> [])"
      by (simp add: grows_def)
    from a b pb [of q] show ?thesis
      by auto
  qed
  show ?thesis
    unfolding grows_def using f n by simp
qed

lemma mkdir_grows:
  assumes "mkdir p perm w = (r, w')"
  shows "grows p perm w w'"
proof -
  from mkdir_cases [OF assms]
  show ?thesis
  proof
    assume a: "r = Nil \<and> w' = w\<lparr>nodes := fmupd p (DirN perm) (nodes w)\<rparr>
              \<and> node_at w p = None \<and> p \<noteq> [] \<and> is_dir w (butlast p)"
    then have "wf_world w \<longrightarrow> wf_world w'"
      by (auto intro: wf_add_node)
    with a show ?thesis
      by (auto simp: grows_def)
  next
    assume "r \<noteq> Nil \<and> w' = w \<and> (\<exists>e. r = Err e) \<and> (is_dir w (butlast p) \<longrightarrow> r = Err EEXIST \<or> r = Err EACCES)"
    then show ?thesis by (simp add: grows_refl)
  qed
qed

lemma mkdir_all_spec:
  "mkdir_all p perm w = (r, w') \<Longrightarrow>
     grows p perm w w'
     \<and> (r = Nil \<longrightarrow> is_dir w' p)
     \<and> (r = Nil \<or> r = Err ENOTDIR \<or> r = Err EACCES)"
proof (induction p perm w arbitrary: r w' rule: mkdir_all.induct)
  case (1 p perm w)
  show ?case
  proof (cases "is_dir w p")
    case True
    with "1.prems" show ?thesis
      by (simp add: mkdir_all.simps [of p perm w] grows_refl)
  next
    case nd: False
    show ?thesis
    proof (cases "present w p")
      case True
      with nd "1.prems" show ?thesis
        by (auto simp: mkdir_all.simps [of p perm w] grows_refl)
    next
      case np: False
      obtain r1 w1 where a: "mkdir_all (butlast p) perm w = (r1, w1)"
        by (cases "mkdir_all (butlast p) perm w")
      from "1.IH" [OF nd np a]
      have ih: "grows (butlast p) perm w w1" "r1 = Nil \<longrightarrow> is_dir w1 (butlast p)"
          "r1 = Nil \<or> r1 = Err ENOTDIR \<or> r1 = Err EACCES"
        by simp_all
      show ?thesis
      proof (cases "r1 = Nil")
        case False
        with "1.prems" nd np a have "r = r1" "w' = w1"
          by (auto simp: mkdir_all.simps [of p perm w] split: result.splits)
        moreover have "grows p perm w w1"
          using grows_trans [OF ih(1) grows_refl] .
        ultimately show ?thesis using ih(3) False by simp
      next
        case True
        obtain r2 w2 where b: "mkdir p perm w1 = (r2, w2)"
          by (cases "mkdir p perm w1")
        have g2: "grows p perm w w2"
          using grows_trans [OF ih(1) mkdir_grows [OF b]] .
        from "1.prems" nd np a b True
        have res: "w' = w2" "r = (if r2 = Nil \<or> is_dir w2 p then Nil else r2)"
          by (auto simp: mkdir_all.simps [of p perm w] split: result.splits if_splits)
        from np have pne: "p \<noteq> []" "node_at w p = None"
          by (simp_all add: present_def)
        have npb: "\<not> prefix p (butlast p)"
        proof
          assume "prefix p (butlast p)"
          then have "length p \<le> length (butlast p)"
            by (rule prefix_length_le)
          moreover have "length (butlast p) < length p"
            using pne(1) by (cases p rule: rev_cases) simp_all
          ultimately show False by linarith
        qed
        from ih(1) have "node_at w1 p = node_at w p
            \<or> (node_at w p = None \<and> node_at w1 p = Some (DirN perm) \<and> prefix p (butlast p) \<and> p \<noteq> [])"
          by (simp add: grows_def)
        with npb pne have "node_at w1 p = None"
          by auto
        with pne have "\<not> present w1 p"
          by (simp add: present_def)
        with b ih(2) True
        have m: "(r2 = Nil \<and> is_dir w2 p) \<or> r2 = Err EACCES"
          by (auto simp: mkdir_def is_dir_def split: if_splits)
        with res g2 show ?thesis
          by auto
      qed
    qed
  qed
qed

subsection \<open>MkdirAll, OpenFile and writing\<close>

lemma MkdirAll_spec:
  assumes "MkdirAll path perm w = (r, w')"
  shows "cwd w' = cwd w \<and> denied w' = denied w
       \<and> (wf_world w \<longrightarrow> wf_world w')
       \<and> (case resolve (cwd w) path of
             None \<Rightarrow> r = Err ENOENT \<and> nodes w' = nodes w
           | Some p \<Rightarrow>
               (\<forall>q. node_at w' q = node_at w q
                    \<or> (node_at w q = None \<and> node_at w' q = Some (DirN perm) \<and> prefix q p \<and> q \<noteq> []))
               \<and> (r = Nil \<longrightarrow> is_dir w' p)
               \<and> (r = Nil \<or> r = Err ENOTDIR \<or> r = Err EACCES))"
proof (cases "resolve (cwd w) path")
  case None
  with assms show ?thesis
    by (auto simp: MkdirAll_def Let_def)
next
  case (Some p)
  with assms have "mkdir_all p perm (emit (SysMkdirAll path perm) w) = (r, w')"
    by (simp add: MkdirAll_def Let_def)
  from mkdir_all_spec [OF this] Some show ?thesis
    by (simp add: grows_def)
qed

lemma OpenFile_spec:
  assumes "OpenFile path perm w = (r, w')"
  shows "cwd w' = cwd w \<and> denied w' = denied w
       \<and> (wf_world w \<longrightarrow> wf_world w')
       \<and> (case r of
             Inl e \<Rightarrow> nodes w' = nodes w
                \<and> (e = ENOENT \<longrightarrow> (case resolve (cwd w) path of None \<Rightarrow> True
                                     | Some p \<Rightarrow> \<not> present w p \<and> \<not> present w (butlast p)))
           | Inr h \<Rightarrow> resolve (cwd w) path = Some h \<and> \<not> is_dir w h
                \<and> (\<exists>m. nodes w' = fmupd h (FileN m []) (nodes w)
                       \<and> (node_at w h = None \<or> (\<exists>c. node_at w h = Some (FileN m c)))))"
proof (cases "resolve (cwd w) path")
  case None
  with assms show ?thesis
    by (auto simp: OpenFile_def Let_def)
next
  case (Some p)
  let ?w0 = "emit (SysOpenFile path perm) w"
  show ?thesis
  proof (cases "is_dir w p")
    case True
    with assms Some show ?thesis
      by (auto simp: OpenFile_def Let_def)
  next
    case nd: False
    show ?thesis
    proof (cases "node_at w p")
      case None
      with nd have pne: "p \<noteq> []"
        by (auto simp: is_dir_def)
      show ?thesis
      proof (cases "is_dir w (butlast p) \<and> \<not> denied w p")
        case True
        with assms Some nd None
        have r: "r = Inr p" "w' = ?w0\<lparr>nodes := fmupd p (FileN perm []) (nodes w)\<rparr>"
          by (auto simp: OpenFile_def Let_def)
        have "wf_world w \<longrightarrow> wf_world w'"
          using wf_add_node [of ?w0 p "FileN perm []"] True None pne
          by (auto simp: r)
        with r Some nd None show ?thesis
          by auto
      next
        case False
        with assms Some nd None
        have "w' = ?w0" "\<exists>e. r = Inl e \<and> (e = ENOENT \<longrightarrow> \<not> present w (butlast p))"
          using lookup_error_ENOENT [of w p]
          by (auto simp: OpenFile_def Let_def split: if_splits)
        with Some None pne show ?thesis
          by (auto simp: present_def)
      qed
    next
      case (Some n)
      with nd obtain m c where n: "node_at w p = Some (FileN m c)"
        by (cases n) (auto simp: is_dir_def)
      show ?thesis
      proof (cases "denied w p")
        case True
        with assms \<open>resolve (cwd w) path = Some p\<close> nd n show ?thesis
          by (auto simp: OpenFile_def Let_def)
      next
        case False
        with assms \<open>resolve (cwd w) path = Some p\<close> nd n
        have r: "r = Inr p" "w' = ?w0\<lparr>nodes := fmupd p (FileN m []) (nodes w)\<rparr>"
          by (auto simp: OpenFile_def Let_def)
        have "wf_world w \<longrightarrow> wf_world w'"
          using wf_change_file [of ?w0 p m c m "[]"] n
          by (auto simp: r)
        with r \<open>resolve (cwd w) path = Some p\<close> nd n show ?thesis
          by auto
      qed
    qed
  qed
qed

lemma write_file_spec:
  assumes "node_at w h = Some (FileN m c)"
  shows "cwd (write_file h d w) = cwd w \<and> denied (write_file h d w) = denied w
       \<and> nodes (write_file h d w) = fmupd h (FileN m (d @ drop (length d) c)) (nodes w)
       \<and> (wf_world w \<longrightarrow> wf_world (write_file h d w))"
proof -
  let ?w0 = "emit (SysWrite h) w"
  have w: "write_file h d w = ?w0\<lparr>nodes := fmupd h (FileN m (d @ drop (length d) c)) (nodes w)\<rparr>"
    using assms by (simp add: write_file_def Let_def)
  have "wf_world w \<longrightarrow> wf_world (write_file h d w)"
    using wf_change_file [of ?w0 h m c m "d @ drop (length d) c"] assms
    by (auto simp: w)
  then show ?thesis
    by (simp add: w)
qed

text \<open>A file entry: open (create or truncate) and copy.\<close>

lemma open_and_copy:
  assumes o: "OpenFile path (Mode f) w = (Inr h, w1)"
      and c: "deferred_close (Close h) (copy_entry h f w1) = (r, w')"
  shows "cwd w' = cwd w \<and> denied w' = denied w
       \<and> (wf_world w \<longrightarrow> wf_world w')
       \<and> resolve (cwd w) path = Some h \<and> \<not> is_dir w h
       \<and> (\<exists>m. nodes w' = fmupd h (FileN m (Data f)) (nodes w))
       \<and> (r = Nil \<or> (\<exists>e. r = Err (ErrZip e)) \<or> (\<exists>e. r = Panic e))"
proof -
  from OpenFile_spec [OF o] obtain m where
    a: "cwd w1 = cwd w" "denied w1 = denied w" "wf_world w \<longrightarrow> wf_world w1"
       "resolve (cwd w) path = Some h" "\<not> is_dir w h"
       "nodes w1 = fmupd h (FileN m []) (nodes w)"
    by auto
  then have n: "node_at w1 h = Some (FileN m [])"
    by simp
  have "\<exists>r0. copy_entry h f w1 = (r0, write_file h (Data f) w1)
            \<and> (r0 = Nil \<or> (\<exists>e. r0 = Err (ErrZip e)))"
    by (cases "ReadErr f") (simp_all add: copy_entry_def Let_def)
  then obtain r0 where r0: "copy_entry h f w1 = (r0, write_file h (Data f) w1)"
      "r0 = Nil \<or> (\<exists>e. r0 = Err (ErrZip e))"
    by blast
  from deferred_Close [of h r0 "write_file h (Data f) w1" r w'] c r0
  have w': "w' = emit (SysClose h) (write_file h (Data f) w1)"
    and r: "r = Nil \<or> (\<exists>e. r = Err (ErrZip e)) \<or> (\<exists>e. r = Panic e)"
    by auto
  from write_file_spec [OF n, of "Data f"] a
  show ?thesis
    using r by (auto simp: w')
qed

subsection \<open>What extracting one entry does\<close>

lemma is_dir_kept:
  assumes "\<forall>q. node_at w' q = node_at w q
              \<or> (node_at w q = None \<and> node_at w' q = Some (DirN perm) \<and> prefix q p \<and> q \<noteq> [])"
      and "is_dir w t"
  shows "is_dir w' t"
proof -
  from assms(1) have "node_at w' t = node_at w t
              \<or> (node_at w t = None \<and> node_at w' t = Some (DirN perm) \<and> prefix t p \<and> t \<noteq> [])"
    by blast
  with assms(2) show ?thesis
    by (auto simp: is_dir_def split: option.splits)
qed

lemma write_entry_effect:
  assumes "write_entry output f w = (r, w')"
  shows "cwd w' = cwd w \<and> denied w' = denied w \<and> (wf_world w \<longrightarrow> wf_world w')
     \<and> (\<forall>t. node_at w' t = node_at w t
           \<or> (node_at w t = None \<and> node_at w' t = Some (DirN (Mode f)) \<and> t \<noteq> []
               \<and> (\<exists>tg. resolve (cwd w) (if IsDir f then Join output (Name f)
                                         else Dir (Join output (Name f))) = Some tg \<and> prefix t tg))
           \<or> (\<not> IsDir f \<and> resolve (cwd w) (Join output (Name f)) = Some t \<and> \<not> is_dir w t
               \<and> (\<exists>m. node_at w' t = Some (FileN m (Data f)))))"
proof -
  let ?path = "Join output (Name f)"
  show ?thesis
  proof (cases "IsDir f")
    case True
    with assms have m: "MkdirAll ?path (Mode f) w = (r, w')"
      by (simp add: write_entry_def Let_def)
    from MkdirAll_spec [OF m] True show ?thesis
      by (cases "resolve (cwd w) ?path") auto
  next
    case False
    obtain r1 w1 where m: "MkdirAll (Dir ?path) (Mode f) w = (r1, w1)"
      by (cases "MkdirAll (Dir ?path) (Mode f) w")
    note ms = MkdirAll_spec [OF m]
    have step1: "cwd w1 = cwd w \<and> denied w1 = denied w \<and> (wf_world w \<longrightarrow> wf_world w1)
       \<and> (\<forall>t. node_at w1 t = node_at w t
           \<or> (node_at w t = None \<and> node_at w1 t = Some (DirN (Mode f)) \<and> t \<noteq> []
               \<and> (\<exists>tg. resolve (cwd w) (Dir ?path) = Some tg \<and> prefix t tg)))"
      using ms by (cases "resolve (cwd w) (Dir ?path)") auto
    show ?thesis
    proof (cases "r1 = Nil")
      case nn: False
      with assms False m have "r = r1" "w' = w1"
        by (auto simp: write_entry_def Let_def split: result.splits)
      with step1 False show ?thesis
        by auto
    next
      case True
      obtain r2 w2 where o: "OpenFile ?path (Mode f) w1 = (r2, w2)"
        by (cases "OpenFile ?path (Mode f) w1")
      show ?thesis
      proof (cases r2)
        case (Inl e)
        with assms False m True o have "w' = w2"
          by (simp add: write_entry_def Let_def)
        with OpenFile_spec [OF o] Inl have "cwd w' = cwd w1" "denied w' = denied w1"
            "nodes w' = nodes w1" "wf_world w1 \<longrightarrow> wf_world w'"
          by simp_all
        with step1 False show ?thesis
          by auto
      next
        case (Inr h)
        with assms False m True o
        have c: "deferred_close (Close h) (copy_entry h f w2) = (r, w')"
          by (simp add: write_entry_def Let_def)
        from o Inr have o': "OpenFile ?path (Mode f) w1 = (Inr h, w2)"
          by simp
        from open_and_copy [OF o' c] obtain mm where
          oc: "cwd w' = cwd w1" "denied w' = denied w1" "wf_world w1 \<longrightarrow> wf_world w'"
              "resolve (cwd w1) ?path = Some h" "\<not> is_dir w1 h"
              "nodes w' = fmupd h (FileN mm (Data f)) (nodes w1)"
          by auto
        have nd: "\<not> is_dir w h"
        proof
          assume "is_dir w h"
          moreover from ms obtain p where "resolve (cwd w) (Dir ?path) = Some p"
            "\<forall>q. node_at w1 q = node_at w q
              \<or> (node_at w q = None \<and> node_at w1 q = Some (DirN (Mode f)) \<and> prefix q p \<and> q \<noteq> [])"
            using True by (cases "resolve (cwd w) (Dir ?path)") auto
          ultimately have "is_dir w1 h"
            using is_dir_kept [of w1 w "Mode f" p h] by simp
          with oc(5) show False ..
        qed
        show ?thesis
        proof (intro conjI allI)
          fix t
          from step1 have s: "node_at w1 t = node_at w t
           \<or> (node_at w t = None \<and> node_at w1 t = Some (DirN (Mode f)) \<and> t \<noteq> []
               \<and> (\<exists>tg. resolve (cwd w) (Dir ?path) = Some tg \<and> prefix t tg))"
            by blast
          show "node_at w' t = node_at w t
           \<or> (node_at w t = None \<and> node_at w' t = Some (DirN (Mode f)) \<and> t \<noteq> []
               \<and> (\<exists>tg. resolve (cwd w) (if IsDir f then ?path else Dir ?path) = Some tg \<and> prefix t tg))
           \<or> (\<not> IsDir f \<and> resolve (cwd w) ?path = Some t \<and> \<not> is_dir w t
               \<and> (\<exists>m. node_at w' t = Some (FileN m (Data f))))"
          proof (cases "t = h")
            case True
            with oc step1 nd False show ?thesis by simp
          next
            case False
            with oc have "node_at w' t = node_at w1 t" by simp
            with s \<open>\<not> IsDir f\<close> show ?thesis by auto
          qed
        qed (use oc step1 in auto)
      qed
    qed
  qed
qed

text \<open>
  \<open>extractAndWrite\<close> is \<open>write_entry\<close> between the opening and the closing of the
  entry's reader, which touch no file.
\<close>

lemma extractAndWrite_cases:
  assumes "extractAndWrite output f w = (r, w')"
  shows "(\<exists>e. OpenErr f = Some e \<and> r = Err (ErrZip e) \<and> w' = emit (ZipOpen (Name f)) w)
       \<or> (\<exists>r0 w0. OpenErr f = None
              \<and> write_entry output f (emit (ZipOpen (Name f)) w) = (r0, w0)
              \<and> w' = emit (ZipClose (Name f)) w0
              \<and> (r = r0 \<or> (\<exists>e. r = Panic (ErrZip e) \<and> CloseErr f = Some e)))"
proof (cases "OpenErr f")
  case (Some e)
  with assms show ?thesis
    by (auto simp: extractAndWrite_def Let_def)
next
  case None
  obtain r0 w0 where b: "write_entry output f (emit (ZipOpen (Name f)) w) = (r0, w0)"
    by (cases "write_entry output f (emit (ZipOpen (Name f)) w)")
  with assms None have "deferred_close (zip_Close f) (r0, w0) = (r, w')"
    by (simp add: extractAndWrite_def Let_def)
  from deferred_zip_Close [OF this] None b show ?thesis
    by auto
qed

lemma extractAndWrite_world:
  assumes "extractAndWrite output f w = (r, w')"
  shows "w' = emit (ZipOpen (Name f)) w
       \<or> (\<exists>r0 w0. write_entry output f (emit (ZipOpen (Name f)) w) = (r0, w0)
              \<and> w' = emit (ZipClose (Name f)) w0)"
  using extractAndWrite_cases [OF assms] by blast

lemma extractAndWrite_effect:
  assumes "extractAndWrite output f w = (r, w')"
  shows "cwd w' = cwd w \<and> denied w' = denied w \<and> (wf_world w \<longrightarrow> wf_world w')
     \<and> (\<forall>t. node_at w' t = node_at w t
           \<or> (node_at w t = None \<and> node_at w' t = Some (DirN (Mode f)) \<and> t \<noteq> []
               \<and> (\<exists>tg. resolve (cwd w) (if IsDir f then Join output (Name f)
                                         else Dir (Join output (Name f))) = Some tg \<and> prefix t tg))
           \<or> (\<not> IsDir f \<and> resolve (cwd w) (Join output (Name f)) = Some t \<and> \<not> is_dir w t
               \<and> (\<exists>m. node_at w' t = Some (FileN m (Data f)))))"
  using extractAndWrite_world [OF assms]
proof (elim disjE exE conjE)
  assume "w' = emit (ZipOpen (Name f)) w"
  then show ?thesis by simp
next
  fix r0 w0
  assume b: "write_entry output f (emit (ZipOpen (Name f)) w) = (r0, w0)"
    and w': "w' = emit (ZipClose (Name f)) w0"
  from write_entry_effect [OF b] show ?thesis
    by (simp add: w')
qed



lemma write_entry_parents:
  assumes wf: "wf_world w" and nd: "\<not> IsDir f"
      and ex: "write_entry output f w = (Nil, w')"
  shows "\<exists>dq. resolve (cwd w) (Dir (Join output (Name f))) = Some dq \<and> is_dir w' dq
           \<and> (\<forall>t. prefix t dq \<and> \<not> present w t \<longrightarrow> node_at w' t = Some (DirN (Mode f)))"
proof -
  let ?path = "Join output (Name f)"
  obtain r1 w1 where m: "MkdirAll (Dir ?path) (Mode f) w = (r1, w1)"
    by (cases "MkdirAll (Dir ?path) (Mode f) w")
  with ex nd have r1: "r1 = Nil"
    by (cases r1) (auto simp: write_entry_def Let_def)
  obtain r2 w2 where o: "OpenFile ?path (Mode f) w1 = (r2, w2)"
    by (cases "OpenFile ?path (Mode f) w1")
  with ex nd m r1 obtain h where
    h: "r2 = Inr h" "deferred_close (Close h) (copy_entry h f w2) = (Nil, w')"
    by (cases r2) (auto simp: write_entry_def Let_def)
  from o h have o': "OpenFile ?path (Mode f) w1 = (Inr h, w2)"
    by simp
  from open_and_copy [OF o' h(2)] obtain mm where
    oc: "\<not> is_dir w1 h" "nodes w' = fmupd h (FileN mm (Data f)) (nodes w1)"
    by auto
  from MkdirAll_spec [OF m] r1 wf obtain dq where
    dq: "resolve (cwd w) (Dir ?path) = Some dq" "is_dir w1 dq" "wf_world w1"
        "\<forall>q. node_at w1 q = node_at w q
              \<or> (node_at w q = None \<and> node_at w1 q = Some (DirN (Mode f)) \<and> prefix q dq \<and> q \<noteq> [])"
    by (cases "resolve (cwd w) (Dir ?path)") auto
  have keep: "is_dir w1 t \<Longrightarrow> node_at w' t = node_at w1 t \<and> is_dir w' t" for t
    using oc by (auto simp: is_dir_def)
  have "node_at w' t = Some (DirN (Mode f))" if t: "prefix t dq" "\<not> present w t" for t
  proof -
    from wf_prefix_is_dir [OF dq(3,2) t(1)] have d1: "is_dir w1 t" .
    from t(2) have tn: "t \<noteq> []" "node_at w t = None"
      by (simp_all add: present_def)
    from dq(4) have "node_at w1 t = node_at w t
              \<or> (node_at w t = None \<and> node_at w1 t = Some (DirN (Mode f)) \<and> prefix t dq \<and> t \<noteq> [])"
      by blast
    with d1 tn have "node_at w1 t = Some (DirN (Mode f))"
      by (auto simp: is_dir_def)
    with keep [OF d1] show ?thesis by simp
  qed
  with dq(1) keep [OF dq(2)] show ?thesis
    by blast
qed

lemma extractAndWrite_parents:
  assumes wf: "wf_world w" and nd: "\<not> IsDir f"
      and ex: "extractAndWrite output f w = (Nil, w')"
  shows "\<exists>dq. resolve (cwd w) (Dir (Join output (Name f))) = Some dq \<and> is_dir w' dq
           \<and> (\<forall>t. prefix t dq \<and> \<not> present w t \<longrightarrow> node_at w' t = Some (DirN (Mode f)))"
proof -
  from extractAndWrite_cases [OF ex] obtain w0 where
    b: "write_entry output f (emit (ZipOpen (Name f)) w) = (Nil, w0)"
       "w' = emit (ZipClose (Name f)) w0"
    by auto
  have "wf_world (emit (ZipOpen (Name f)) w)"
    using wf by simp
  from write_entry_parents [OF this nd b(1)] b(2) show ?thesis
    by simp
qed

subsection \<open>Paths: splitting, cleaning and resolving\<close>

lemma split_slash_not_Nil [simp]: "split_slash s \<noteq> []"
  by (induction s) (simp_all add: Let_def)

lemma split_slash_Cons:
  "split_slash (c # cs) = (if c = CHR ''/'' then [] # split_slash cs
                           else (c # hd (split_slash cs)) # tl (split_slash cs))"
  by (simp add: Let_def)

lemma split_slash_append:
  "split_slash (a @ CHR ''/'' # b) = split_slash a @ split_slash b"
proof (induction a)
  case Nil
  show ?case by (simp add: Let_def)
next
  case (Cons c a)
  have ne: "split_slash a \<noteq> []" by simp
  show ?case
  proof (cases "c = CHR ''/''")
    case True
    with Cons show ?thesis by (simp add: Let_def)
  next
    case False
    with Cons ne show ?thesis
      by (cases "split_slash a") (simp_all add: Let_def)
  qed
qed

lemma split_slash_no_slash: "CHR ''/'' \<notin> set x \<Longrightarrow> split_slash x = [x]"
  by (induction x) (auto simp: Let_def)

lemma split_slash_elems: "x \<in> set (split_slash s) \<Longrightarrow> CHR ''/'' \<notin> set x"
proof (induction s arbitrary: x)
  case Nil
  then show ?case by simp
next
  case (Cons c s)
  have ne: "split_slash s \<noteq> []" by simp
  show ?case
  proof (cases "c = CHR ''/''")
    case True
    with Cons show ?thesis by (auto simp: Let_def)
  next
    case False
    from ne obtain y ys where ys: "split_slash s = y # ys"
      by (cases "split_slash s") auto
    with Cons.prems False have "x = c # y \<or> x \<in> set ys"
      by (auto simp: Let_def)
    with Cons.IH ys False show ?thesis
      by auto
  qed
qed

lemma split_join:
  "xs \<noteq> [] \<Longrightarrow> \<forall>x \<in> set xs. CHR ''/'' \<notin> set x \<Longrightarrow> split_slash (join_slash xs) = xs"
proof (induction xs rule: join_slash.induct)
  case 1
  then show ?case by simp
next
  case (2 x)
  then show ?case by (simp add: split_slash_no_slash)
next
  case (3 x y ys)
  then show ?case
    by (simp add: split_slash_append split_slash_no_slash del: split_slash.simps)
qed

lemma LastIndex_absent: "c \<notin> set p \<Longrightarrow> LastIndex p c = - 1"
  by (induction p) (auto simp: Let_def)

lemma LastIndex_present:
  "c \<in> set p \<Longrightarrow> \<exists>t l. p = t @ c # l \<and> c \<notin> set l \<and> LastIndex p c = int (length t)"
proof (induction p)
  case Nil
  then show ?case by simp
next
  case (Cons x p)
  show ?case
  proof (cases "c \<in> set p")
    case True
    from Cons.IH [OF True] obtain t l where
      "p = t @ c # l" "c \<notin> set l" "LastIndex p c = int (length t)"
      by blast
    then have "x # p = (x # t) @ c # l \<and> c \<notin> set l \<and> LastIndex (x # p) c = int (length (x # t))"
      by (simp add: Let_def)
    then show ?thesis by blast
  next
    case False
    with Cons.prems have "x = c" by simp
    with False have "x # p = [] @ c # p \<and> c \<notin> set p \<and> LastIndex (x # p) c = int (length ([]::string))"
      by (simp add: Let_def LastIndex_absent)
    then show ?thesis by blast
  qed
qed

lemma walk_append: "walk acc (xs @ ys) = walk (walk acc xs) ys"
  by (induction xs arbitrary: acc) simp_all

lemma walk_one: "walk acc [x] = acc @ [x] \<or> walk acc [x] = acc \<or> walk acc [x] = butlast acc"
  by simp


text \<open>Clean does not change where a path leads.\<close>

lemma walk_clean_elems:
  "\<forall>x \<in> set acc. x \<noteq> [] \<and> x \<noteq> ''.'' \<Longrightarrow> (rooted \<longrightarrow> base = [] \<and> ''..'' \<notin> set acc) \<Longrightarrow>
   walk base (clean_elems rooted acc xs) = walk (walk base acc) xs"
proof (induction xs arbitrary: acc)
  case Nil
  show ?case by simp
next
  case (Cons c cs)
  show ?case
  proof (cases "c = [] \<or> c = ''.''")
    case True
    with Cons show ?thesis by auto
  next
    case plain: False
    show ?thesis
    proof (cases "c = ''..''")
      case False
      have "walk base (clean_elems rooted (acc @ [c]) cs) = walk (walk base (acc @ [c])) cs"
        using Cons.prems plain False by (intro Cons.IH) auto
      with plain False show ?thesis
        by (simp add: walk_append)
    next
      case dd: True
      show ?thesis
      proof (cases "acc \<noteq> [] \<and> last acc \<noteq> ''..''")
        case True
        then obtain ys y where acc: "acc = ys @ [y]" "y \<noteq> ''..''"
          by (cases acc rule: rev_cases) auto
        with Cons.prems have y: "y \<noteq> []" "y \<noteq> ''.''"
          by auto
        have "walk base (clean_elems rooted ys cs) = walk (walk base ys) cs"
          using Cons.prems acc by (intro Cons.IH) auto
        moreover have "walk base acc = walk base ys @ [y]"
          using acc y by (simp add: walk_append)
        ultimately show ?thesis
          using dd acc by simp
      next
        case False
        show ?thesis
        proof (cases rooted)
          case True
          with Cons.prems False have a: "acc = []" "base = []"
            by (cases acc rule: rev_cases; auto)+
          have "walk base (clean_elems rooted [] cs) = walk (walk base []) cs"
            using True a by (intro Cons.IH) auto
          with dd True a show ?thesis by simp
        next
          case nr: False
          have "walk base (clean_elems rooted (acc @ [c]) cs) = walk (walk base (acc @ [c])) cs"
            using Cons.prems plain nr by (intro Cons.IH) auto
          moreover from False dd nr
          have "clean_elems rooted acc (c # cs) = clean_elems rooted (acc @ [c]) cs"
            by auto
          ultimately show ?thesis
            using dd by (simp add: walk_append)
        qed
      qed
    qed
  qed
qed

lemma clean_elems_subset:
  "set (clean_elems rooted acc xs) \<subseteq> set acc \<union> set xs"
proof (induction xs arbitrary: acc)
  case Nil
  show ?case by simp
next
  case (Cons c cs)
  have "set (butlast acc) \<subseteq> set acc"
    by (auto dest: in_set_butlastD)
  with Cons [of acc] Cons [of "butlast acc"] Cons [of "acc @ [c]"] show ?case
    by (auto split: if_splits)
qed

lemma clean_elems_nonempty:
  "\<forall>x \<in> set acc. x \<noteq> [] \<Longrightarrow> \<forall>x \<in> set (clean_elems rooted acc xs). x \<noteq> []"
proof (induction xs arbitrary: acc)
  case Nil
  then show ?case by simp
next
  case (Cons c cs)
  have "\<forall>x \<in> set (butlast acc). x \<noteq> []"
    using Cons.prems by (auto dest: in_set_butlastD)
  then have b: "\<forall>x \<in> set (clean_elems rooted (butlast acc) cs). x \<noteq> []"
    by (rule Cons.IH)
  have a: "\<forall>x \<in> set (clean_elems rooted acc cs). x \<noteq> []"
    using Cons.prems by (rule Cons.IH)
  have c: "\<forall>x \<in> set (clean_elems rooted (acc @ [c]) cs). x \<noteq> []" if "c \<noteq> []"
    using Cons.prems that by (intro Cons.IH) auto
  show ?case
    using a b c by auto
qed

lemma join_slash_hd:
  "xs \<noteq> [] \<Longrightarrow> \<forall>x \<in> set xs. x \<noteq> [] \<Longrightarrow> join_slash xs \<noteq> [] \<and> hd (join_slash xs) = hd (hd xs)"
  by (induction xs rule: join_slash.induct) auto

lemma Clean_not_Nil: "Clean s \<noteq> []"
  using join_slash_hd [of "clean_elems (is_rooted s) [] (split_slash s)"]
    clean_elems_nonempty [of "[]" "is_rooted s" "split_slash s"]
  by (auto simp: Clean_def Let_def)

lemma is_rooted_Clean: "is_rooted (Clean s) = is_rooted s"
proof (cases "is_rooted s")
  case True
  then show ?thesis
    by (simp add: Clean_def Let_def is_rooted_def)
next
  case False
  let ?elems = "clean_elems False [] (split_slash s)"
  show ?thesis
  proof (cases "?elems = []")
    case True
    with False show ?thesis
      by (simp add: Clean_def Let_def is_rooted_def)
  next
    case ne: False
    have e: "\<forall>x \<in> set ?elems. x \<noteq> []"
      using clean_elems_nonempty [of "[]" False "split_slash s"] by simp
    have "hd ?elems \<in> set ?elems"
      using ne by simp
    with clean_elems_subset [of False "[]" "split_slash s"]
    have "CHR ''/'' \<notin> set (hd ?elems)" "hd ?elems \<noteq> []"
      using split_slash_elems e by auto
    then have "hd (hd ?elems) \<noteq> CHR ''/''"
      by (cases "hd ?elems") auto
    with join_slash_hd [OF ne e] have "\<not> is_rooted (join_slash ?elems)"
      by (cases "join_slash ?elems") (auto simp: is_rooted_def)
    with False ne show ?thesis
      by (simp add: Clean_def Let_def)
  qed
qed

lemma resolve_Clean:
  "resolve wd (Clean s) = (if s = [] then Some wd else resolve wd s)"
proof -
  let ?r = "is_rooted s"
  let ?base = "if ?r then [] else wd"
  let ?elems = "clean_elems ?r [] (split_slash s)"
  have w: "walk ?base ?elems = walk ?base (split_slash s)"
    using walk_clean_elems [of "[]" ?r ?base "split_slash s"] by simp
  have sf: "\<forall>x \<in> set ?elems. CHR ''/'' \<notin> set x"
    using clean_elems_subset [of ?r "[]" "split_slash s"] split_slash_elems by auto
  have "walk ?base (split_slash (Clean s)) = walk ?base ?elems"
  proof (cases ?r)
    case True
    show ?thesis
    proof (cases "?elems = []")
      case e: True
      with True show ?thesis by (simp add: Clean_def Let_def)
    next
      case False
      with True sf show ?thesis
        by (simp add: Clean_def Let_def split_join del: split_slash.simps add: split_slash_Cons)
    qed
  next
    case nr: False
    show ?thesis
    proof (cases "?elems = []")
      case True
      with nr show ?thesis by (simp add: Clean_def Let_def)
    next
      case False
      with nr sf show ?thesis
        by (simp add: Clean_def Let_def split_join)
    qed
  qed
  with w have "resolve wd (Clean s) = Some (walk ?base (split_slash s))"
    by (simp add: resolve_def Clean_not_Nil is_rooted_Clean)
  moreover have "s = [] \<Longrightarrow> walk ?base (split_slash s) = wd"
    by (simp add: is_rooted_def)
  ultimately show ?thesis
    by (auto simp: resolve_def)
qed


lemma resolve_Dir:
  "resolve wd (Dir p) = Some (walk (if is_rooted p then [] else wd) (butlast (split_slash p)))"
proof (cases "CHR ''/'' \<in> set p")
  case False
  then have "Dir p = Clean []"
    by (simp add: Dir_def LastIndex_absent)
  moreover from False have "\<not> is_rooted p"
    by (cases p) (auto simp: is_rooted_def)
  ultimately show ?thesis
    using False by (simp add: resolve_Clean split_slash_no_slash)
next
  case True
  from LastIndex_present [OF True] obtain t l where
    p: "p = t @ CHR ''/'' # l" "CHR ''/'' \<notin> set l" "LastIndex p (CHR ''/'') = int (length t)"
    by blast
  have "nat (int (length t) + 1) = Suc (length t)"
    by simp
  with p have d: "Dir p = Clean (t @ [CHR ''/''])"
    by (simp add: Dir_def)
  have r: "is_rooted (t @ [CHR ''/'']) = is_rooted p"
    using p(1) by (cases t) (simp_all add: is_rooted_def)
  have s1: "split_slash (t @ [CHR ''/'']) = split_slash t @ [[]]"
    using split_slash_append [of t "[]"] by simp
  have s2: "split_slash p = split_slash t @ [l]"
    using split_slash_append [of t l] p(1,2) by (simp add: split_slash_no_slash)
  have "resolve wd (Dir p) = resolve wd (t @ [CHR ''/''])"
    by (simp add: d resolve_Clean)
  also have "\<dots> = Some (walk (if is_rooted p then [] else wd) (split_slash t))"
    by (simp add: resolve_def r s1 walk_append del: split_slash.simps)
  finally show ?thesis
    by (simp add: s2)
qed

lemma resolve_step:
  assumes "p \<noteq> []"
  shows "\<exists>dq x. resolve wd (Dir p) = Some dq \<and> resolve wd p = Some (walk dq [x])"
proof -
  let ?base = "if is_rooted p then [] else wd"
  obtain xs x where s: "split_slash p = xs @ [x]"
    by (cases "split_slash p" rule: rev_cases) auto
  then have "resolve wd p = Some (walk (walk ?base xs) [x])"
    using assms by (simp add: resolve_def walk_append del: walk.simps)
  moreover have "resolve wd (Dir p) = Some (walk ?base xs)"
    by (simp add: resolve_Dir s)
  ultimately show ?thesis by blast
qed

subsection \<open>The install directory\<close>

text \<open>
  Claim C2, as amended. \<open>GetInstallPath\<close> is a function of the OS identifier and the user
  name (the application name is the constant \<open>appName\<close>): on darwin it is
  \<open>/Applications/<appName>/\<close> whatever the user is; with the normalised user name \<open>u\<close> it is
  \<open>C:/Users/u/AppData/Local/<appName>/\<close> on windows and \<open>/home/u/.local/share/<appName>/\<close>
  on linux; for every other OS identifier it is the relative path \<open>u/<appName>/\<close>: the user
  name and the application name, with no working directory in the string.
\<close>

theorem GetInstallPath_locations:
  "GetInstallPath ''darwin'' cur = Inr (''/Applications/'' @ appName @ ''/'')
   \<and> (GetUsername cur = Inr u \<longrightarrow>
        GetInstallPath ''windows'' cur = Inr (''C:/Users/'' @ u @ ''/AppData/Local/'' @ appName @ ''/'')
      \<and> GetInstallPath ''linux'' cur = Inr (''/home/'' @ u @ ''/.local/share/'' @ appName @ ''/'')
      \<and> (goos \<noteq> ''windows'' \<and> goos \<noteq> ''linux'' \<and> goos \<noteq> ''darwin'' \<longrightarrow>
           GetInstallPath goos cur = Inr (u @ ''/'' @ appName @ ''/'')))"
  by (simp add: GetInstallPath_def)

theorem GetInstallPath_locations_witness:
  "GetUsername (Inr ''alice'') = Inr ''alice''
   \<and> GetInstallPath ''darwin'' (Inr ''alice'') = Inr ''/Applications/OpenRQ/''
   \<and> GetInstallPath ''windows'' (Inr ''alice'') = Inr ''C:/Users/alice/AppData/Local/OpenRQ/''
   \<and> GetInstallPath ''linux'' (Inr ''alice'') = Inr ''/home/alice/.local/share/OpenRQ/''
   \<and> GetInstallPath ''freebsd'' (Inr ''alice'') = Inr ''alice/OpenRQ/''"
proof -
  have u: "GetUsername (Inr ''alice'') = Inr ''alice''"
    by (simp add: GetUsername_def)
  show ?thesis
    using GetInstallPath_locations [of "Inr ''alice''" "''alice''" "''freebsd''"] u
    by (simp add: appName_def)
qed

text \<open>
  Claim C2 as stated fails in its last case: on freebsd, for alice working in \<open>/srv\<close>, the
  result is \<open>alice/OpenRQ/\<close>, not \<open>/srv/OpenRQ/\<close>.
\<close>

theorem GetInstallPath_fallback_counterexample:
  "GetInstallPath ''freebsd'' (Inr ''alice'') = Inr ''alice/OpenRQ/''
   \<and> GetInstallPath ''freebsd'' (Inr ''alice'') \<noteq> Inr (''/srv'' @ ''/'' @ appName @ ''/'')"
  by (simp add: GetInstallPath_def GetUsername_def appName_def)

subsection \<open>The temporary script of CreateShortcut\<close>

text \<open>
  Claim C3 says the temporary script is deleted whether the script host succeeded or
  failed. On windows, with a script host that fails, \<open>CreateShortcut\<close> returns the host's
  error after writing the script (open, write, close) and running the host: no
  \<open>os.Remove\<close> is made, and the script is still there.
\<close>

theorem CreateShortcut_keeps_script_when_host_fails:
  "fst (CreateShortcut failing_host ''windows'' (Inr ''alice'') win_world) = Err ErrExit
   \<and> trace (snd (CreateShortcut failing_host ''windows'' (Inr ''alice'') win_world)) =
       [SysOpenFile ''C:/Users/alice/AppData/Local/Temp/CreateShortcut.vbs'' 0x1FF,
        SysWrite [''C:'', ''Users'', ''alice'', ''AppData'', ''Local'', ''Temp'', ''CreateShortcut.vbs''],
        SysClose [''C:'', ''Users'', ''alice'', ''AppData'', ''Local'', ''Temp'', ''CreateShortcut.vbs''],
        SysRun ''wscript'' ''C:/Users/alice/AppData/Local/Temp/CreateShortcut.vbs'']
   \<and> present (snd (CreateShortcut failing_host ''windows'' (Inr ''alice'') win_world))
       [''C:'', ''Users'', ''alice'', ''AppData'', ''Local'', ''Temp'', ''CreateShortcut.vbs'']"
  by code_simp
subsection \<open>Uninstall\<close>










subsection \<open>Progress reports and the processing of entries\<close>

lemma progress_of_append: "progress_of (xs @ ys) = progress_of xs @ progress_of ys"
  by (induction xs rule: progress_of.induct) simp_all

lemma write_entry_trace:
  "\<exists>evs. trace (snd (write_entry output file w)) = trace w @ evs \<and> progress_of evs = []"
proof -
  let ?path = "Join output (Name file)"
  show ?thesis
  proof (cases "IsDir file")
    case True
    then have "trace (snd (write_entry output file w)) = trace w @ [SysMkdirAll ?path (Mode file)]"
      by (simp add: write_entry_def Let_def MkdirAll_trace)
    then show ?thesis by simp
  next
    case False
    obtain r w1 where a: "MkdirAll (Dir ?path) (Mode file) w = (r, w1)"
      by (cases "MkdirAll (Dir ?path) (Mode file) w")
    then have t1: "trace w1 = trace w @ [SysMkdirAll (Dir ?path) (Mode file)]"
      using MkdirAll_trace [of "Dir ?path" "Mode file" w] by simp
    obtain r2 w2 where b: "OpenFile ?path (Mode file) w1 = (r2, w2)"
      by (cases "OpenFile ?path (Mode file) w1")
    then have t2: "trace w2 = trace w1 @ [SysOpenFile ?path (Mode file)]"
      using OpenFile_trace [of ?path "Mode file" w1] by simp
    show ?thesis
    proof (cases r)
      case Nil
      show ?thesis
      proof (cases r2)
        case (Inl err)
        then have "trace (snd (write_entry output file w)) = trace w2"
          by (simp add: write_entry_def Let_def False a b Nil)
        then show ?thesis by (simp add: t1 t2)
      next
        case (Inr h)
        then have "trace (snd (write_entry output file w)) = trace w2 @ [SysWrite h, SysClose h]"
          by (simp add: write_entry_def Let_def False a b Nil copy_entry_trace deferred_Close_trace)
        then show ?thesis by (simp add: t1 t2)
      qed
    next
      case (Err e)
      then have "trace (snd (write_entry output file w)) = trace w1"
        by (simp add: write_entry_def Let_def False a)
      then show ?thesis by (simp add: t1)
    next
      case (Panic e)
      then have "trace (snd (write_entry output file w)) = trace w1"
        by (simp add: write_entry_def Let_def False a)
      then show ?thesis by (simp add: t1)
    qed
  qed
qed

lemma extractAndWrite_trace:
  "\<exists>evs. trace (snd (extractAndWrite output f w)) = trace w @ evs \<and> entry_events f evs"
proof -
  obtain r w' where e: "extractAndWrite output f w = (r, w')"
    by (cases "extractAndWrite output f w")
  from extractAndWrite_world [OF e] show ?thesis
  proof (elim disjE exE conjE)
    assume "w' = emit (ZipOpen (Name f)) w"
    with e show ?thesis
      by (simp add: entry_events_def)
  next
    fix r0 w0
    assume b: "write_entry output f (emit (ZipOpen (Name f)) w) = (r0, w0)"
      and w': "w' = emit (ZipClose (Name f)) w0"
    from write_entry_trace [of "output" f "emit (ZipOpen (Name f)) w"] b
    obtain evs where "trace w0 = trace w @ ZipOpen (Name f) # evs" "progress_of evs = []"
      by auto
    with e w' show ?thesis
      by (simp add: entry_events_def progress_of_append)
  qed
qed

lemma Extract_loop_blocks:
  "\<exists>bs. trace (snd (Extract_loop output n i files w)) = trace w @ blocks n i bs
        \<and> length bs \<le> length files
        \<and> list_all2 entry_events (take (length bs) files) bs
        \<and> (fst (Extract_loop output n i files w) = Nil \<longrightarrow> length bs = length files)
        \<and> (fst (Extract_loop output n i files w) \<noteq> Nil \<longrightarrow> bs \<noteq> [])"
proof (induction files arbitrary: i w)
  case Nil
  show ?case by (rule exI [of _ "[]"]) simp
next
  case (Cons f rest)
  let ?w1 = "emit (SetValue (real (i + 1) / real n)) w"
  obtain r w2 where a: "extractAndWrite output f ?w1 = (r, w2)"
    by (cases "extractAndWrite output f ?w1")
  from extractAndWrite_trace [of "output" f ?w1] a
  obtain evs where evs: "trace w2 = trace w @ SetValue (real (i + 1) / real n) # evs" "entry_events f evs"
    by auto
  show ?case
  proof (cases r)
    case Nil
    from Cons.IH [of "i + 1" w2] obtain bs where
      bs: "trace (snd (Extract_loop output n (i + 1) rest w2)) = trace w2 @ blocks n (i + 1) bs"
          "length bs \<le> length rest"
          "list_all2 entry_events (take (length bs) rest) bs"
          "fst (Extract_loop output n (i + 1) rest w2) = Nil \<longrightarrow> length bs = length rest"
      by blast
    show ?thesis
      by (rule exI [of _ "evs # bs"]) (use a Nil evs bs in simp)
  next
    case (Err e)
    show ?thesis
      by (rule exI [of _ "[evs]"]) (use a Err evs in simp)
  next
    case (Panic e)
    show ?thesis
      by (rule exI [of _ "[evs]"]) (use a Panic evs in simp)
  qed
qed

lemma added_append: "trace w' = trace w @ evs \<Longrightarrow> added w w' = evs"
  by (simp add: added_def)

text \<open>
  Claim C5, as amended. \<open>Extract\<close> sets the progress value to \<open>(i+1)/n\<close> before it
  processes entry \<open>i\<close>: the events of a run are one block per entry attempted, in archive
  order, and each block is the report \<open>(i+1)/n\<close> followed by the events of that entry
  (its \<open>file.Open()\<close> first, then its file system calls, no report among them). A run that
  succeeds has a block for every entry; a run that fails has at least one block, the last
  one being that of the failing entry, so the report for a failing entry is emitted.
\<close>

theorem Extract_reports_first:
  "\<exists>bs. added w (snd (Extract (Inr files) output w)) = blocks (length files) 0 bs
        \<and> length bs \<le> length files
        \<and> list_all2 entry_events (take (length bs) files) bs
        \<and> (fst (Extract (Inr files) output w) = Nil \<longrightarrow> length bs = length files)
        \<and> (fst (Extract (Inr files) output w) \<noteq> Nil \<longrightarrow> bs \<noteq> [])"
  using Extract_loop_blocks [of "output" "length files" 0 files w]
  by (auto simp: Extract_def dest: added_append)

theorem Extract_reports_first_witness:
  "fst (Extract (Inr [assets_dir, broken, readme]) ''/tmp/out'' unix_world) \<noteq> Nil
   \<and> (\<exists>bs. added unix_world (snd (Extract (Inr [assets_dir, broken, readme]) ''/tmp/out'' unix_world))
               = blocks (length [assets_dir, broken, readme]) 0 bs
           \<and> bs \<noteq> [] \<and> length bs \<le> length [assets_dir, broken, readme]
           \<and> list_all2 entry_events (take (length bs) [assets_dir, broken, readme]) bs)
   \<and> added unix_world (snd (Extract (Inr [assets_dir, broken, readme]) ''/tmp/out'' unix_world))
        = [SetValue (1 / 3), ZipOpen ''assets/'', SysMkdirAll ''/tmp/out/assets'' 0x800001ED,
           ZipClose ''assets/'', SetValue (2 / 3), ZipOpen ''broken.bin'']"
proof -
  have a: "fst (Extract (Inr [assets_dir, broken, readme]) ''/tmp/out'' unix_world) \<noteq> Nil"
    by code_simp
  have b: "added unix_world (snd (Extract (Inr [assets_dir, broken, readme]) ''/tmp/out'' unix_world))
        = [SetValue (1 / 3), ZipOpen ''assets/'', SysMkdirAll ''/tmp/out/assets'' 0x800001ED,
           ZipClose ''assets/'', SetValue (2 / 3), ZipOpen ''broken.bin'']"
    by code_simp
  from Extract_reports_first [of unix_world "[assets_dir, broken, readme]" "''/tmp/out''"] a
  have c: "\<exists>bs. added unix_world (snd (Extract (Inr [assets_dir, broken, readme]) ''/tmp/out'' unix_world))
               = blocks (length [assets_dir, broken, readme]) 0 bs
           \<and> bs \<noteq> [] \<and> length bs \<le> length [assets_dir, broken, readme]
           \<and> list_all2 entry_events (take (length bs) [assets_dir, broken, readme]) bs"
    by blast
  show ?thesis
    by (intro conjI a b c)
qed

text \<open>
  Claim C5 as stated fails in the order: in the run of a one-entry archive the report is
  the first event, and the file system processing of the entry follows it.
\<close>

theorem Extract_processing_after_report_counterexample:
  "fst (Extract (Inr [readme]) ''/tmp/out'' unix_world) = Nil
   \<and> added unix_world (snd (Extract (Inr [readme]) ''/tmp/out'' unix_world))
        = [SetValue 1, ZipOpen ''assets/readme.txt'', SysMkdirAll ''/tmp/out/assets'' 0x1A4,
           SysOpenFile ''/tmp/out/assets/readme.txt'' 0x1A4,
           SysWrite [''tmp'', ''out'', ''assets'', ''readme.txt''],
           SysClose [''tmp'', ''out'', ''assets'', ''readme.txt''],
           ZipClose ''assets/readme.txt'']"
  by code_simp

subsection \<open>The sequence of progress values\<close>





subsection \<open>The mode of the parent directories\<close>

text \<open>
  Claim C10. When \<open>Extract\<close> processes a file entry, every directory it creates has the
  entry's own mode (\<open>file.Mode()\<close>, as passed to \<open>os.MkdirAll\<close>, before umask): whatever
  the result, a directory that is there afterwards and was not there before has that mode;
  and when the entry is extracted, the parent \<open>filepath.Dir(path)\<close> is a directory and each
  of its ancestors that was missing has been made with that mode.
\<close>

theorem parents_made_with_entry_mode:
  assumes "\<not> IsDir f" and "extractAndWrite output f w = (r, w')"
  shows "(\<forall>t m. \<not> present w t \<and> node_at w' t = Some (DirN m) \<longrightarrow> m = Mode f)
       \<and> (wf_world w \<and> r = Nil \<longrightarrow>
            (\<exists>dq. resolve (cwd w) (Dir (Join output (Name f))) = Some dq \<and> is_dir w' dq
                 \<and> (\<forall>t. prefix t dq \<and> \<not> present w t \<longrightarrow> node_at w' t = Some (DirN (Mode f)))))"
proof (intro conjI allI impI)
  fix t m
  assume a: "\<not> present w t \<and> node_at w' t = Some (DirN m)"
  from extractAndWrite_effect [OF assms(2)]
  have "node_at w' t = node_at w t
           \<or> (node_at w t = None \<and> node_at w' t = Some (DirN (Mode f)) \<and> t \<noteq> []
               \<and> (\<exists>tg. resolve (cwd w) (if IsDir f then Join output (Name f)
                                         else Dir (Join output (Name f))) = Some tg \<and> prefix t tg))
           \<or> (\<not> IsDir f \<and> resolve (cwd w) (Join output (Name f)) = Some t \<and> \<not> is_dir w t
               \<and> (\<exists>m. node_at w' t = Some (FileN m (Data f))))"
    by blast
  with a show "m = Mode f"
    by (auto simp: present_def)
next
  assume "wf_world w \<and> r = Nil"
  with assms extractAndWrite_parents [of w f "output" w']
  show "\<exists>dq. resolve (cwd w) (Dir (Join output (Name f))) = Some dq \<and> is_dir w' dq
                 \<and> (\<forall>t. prefix t dq \<and> \<not> present w t \<longrightarrow> node_at w' t = Some (DirN (Mode f)))"
    by simp
qed

theorem parents_made_with_entry_mode_witness:
  "wf_world unix_world \<and> \<not> IsDir deep
   \<and> fst (extractAndWrite ''/tmp/out'' deep unix_world) = Nil
   \<and> resolve (cwd unix_world) (Dir (Join ''/tmp/out'' (Name deep))) = Some [''tmp'', ''out'', ''a'', ''b'']
   \<and> \<not> present unix_world [''tmp'', ''out'', ''a'']
   \<and> \<not> present unix_world [''tmp'', ''out'', ''a'', ''b'']
   \<and> Mode deep = 0x1A4
   \<and> node_at (snd (extractAndWrite ''/tmp/out'' deep unix_world)) [''tmp'', ''out'', ''a''] = Some (DirN 0x1A4)
   \<and> node_at (snd (extractAndWrite ''/tmp/out'' deep unix_world)) [''tmp'', ''out'', ''a'', ''b''] = Some (DirN 0x1A4)"
proof -
  have a: "wf_world unix_world" by code_simp
  have b: "\<not> IsDir deep" by code_simp
  have c: "fst (extractAndWrite ''/tmp/out'' deep unix_world) = Nil" by code_simp
  have d: "resolve (cwd unix_world) (Dir (Join ''/tmp/out'' (Name deep))) = Some [''tmp'', ''out'', ''a'', ''b'']"
    by code_simp
  have e: "\<not> present unix_world [''tmp'', ''out'', ''a'']" by code_simp
  have f: "\<not> present unix_world [''tmp'', ''out'', ''a'', ''b'']" by code_simp
  have g: "Mode deep = 0x1A4" by (simp add: deep_def)
  have ex: "extractAndWrite ''/tmp/out'' deep unix_world
      = (Nil, snd (extractAndWrite ''/tmp/out'' deep unix_world))"
    using c by (metis prod.collapse)
  from parents_made_with_entry_mode [OF b ex] a d
  have all: "\<forall>t. prefix t [''tmp'', ''out'', ''a'', ''b''] \<and> \<not> present unix_world t \<longrightarrow>
     node_at (snd (extractAndWrite ''/tmp/out'' deep unix_world)) t = Some (DirN (Mode deep))"
    by auto
  have p1: "prefix [''tmp'', ''out'', ''a''] [''tmp'', ''out'', ''a'', ''b'']"
    and p2: "prefix [''tmp'', ''out'', ''a'', ''b''] [''tmp'', ''out'', ''a'', ''b'']"
    by simp_all
  from all p1 e g
  have h: "node_at (snd (extractAndWrite ''/tmp/out'' deep unix_world)) [''tmp'', ''out'', ''a''] = Some (DirN 0x1A4)"
    by metis
  from all p2 f g
  have i: "node_at (snd (extractAndWrite ''/tmp/out'' deep unix_world)) [''tmp'', ''out'', ''a'', ''b''] = Some (DirN 0x1A4)"
    by metis
  show ?thesis
    by (intro conjI a b c d e f g h i)
qed

subsection \<open>The parent directory of a file entry\<close>

lemma Join_not_Nil: "a \<noteq> [] \<or> b \<noteq> [] \<Longrightarrow> Join a b \<noteq> []"
  by (auto simp: Join_def Clean_not_Nil)

lemma resolve_Some: "p \<noteq> [] \<Longrightarrow> \<exists>q. resolve wd p = Some q"
  by (simp add: resolve_def)

lemma write_entry_found:
  assumes wf: "wf_world w" and ne: "Join output (Name f) \<noteq> []"
  shows "fst (write_entry output f w) \<noteq> Err ENOENT"
proof -
  let ?path = "Join output (Name f)"
  show ?thesis
  proof (cases "IsDir f")
    case True
    obtain r w' where m: "MkdirAll ?path (Mode f) w = (r, w')"
      by (cases "MkdirAll ?path (Mode f) w")
    from resolve_Some [OF ne, of "cwd w"] obtain q where "resolve (cwd w) ?path = Some q"
      by blast
    with MkdirAll_spec [OF m] have "r = Nil \<or> r = Err ENOTDIR \<or> r = Err EACCES"
      by simp
    with True m show ?thesis
      by (auto simp: write_entry_def Let_def)
  next
    case False
    obtain r1 w1 where m: "MkdirAll (Dir ?path) (Mode f) w = (r1, w1)"
      by (cases "MkdirAll (Dir ?path) (Mode f) w")
    from resolve_step [OF ne, of "cwd w"] obtain dq x where
      dq: "resolve (cwd w) (Dir ?path) = Some dq" "resolve (cwd w) ?path = Some (walk dq [x])"
      by blast
    with MkdirAll_spec [OF m] wf
    have ms: "cwd w1 = cwd w" "wf_world w1" "r1 = Nil \<longrightarrow> is_dir w1 dq"
        "r1 = Nil \<or> r1 = Err ENOTDIR \<or> r1 = Err EACCES"
      by simp_all
    show ?thesis
    proof (cases "r1 = Nil")
      case nn: False
      with ms(4) False m show ?thesis
        by (auto simp: write_entry_def Let_def)
    next
      case True
      with ms have d1: "is_dir w1 dq" by simp
      obtain r2 w2 where o: "OpenFile ?path (Mode f) w1 = (r2, w2)"
        by (cases "OpenFile ?path (Mode f) w1")
      show ?thesis
      proof (cases r2)
        case (Inl e)
        have "e \<noteq> ENOENT"
        proof
          assume "e = ENOENT"
          with OpenFile_spec [OF o] Inl dq(2) ms(1)
          have np: "\<not> present w1 (walk dq [x])" "\<not> present w1 (butlast (walk dq [x]))"
            by simp_all
          have "present w1 dq"
            using d1 by (rule is_dir_present)
          moreover have "present w1 (butlast dq)"
            using wf_present_butlast [OF ms(2) \<open>present w1 dq\<close>] by (rule is_dir_present)
          ultimately show False
            using np walk_one [of dq x] by auto
        qed
        with False m True o Inl show ?thesis
          by (simp add: write_entry_def Let_def)
      next
        case (Inr h)
        obtain r3 w3 where c: "deferred_close (Close h) (copy_entry h f w2) = (r3, w3)"
          by (cases "deferred_close (Close h) (copy_entry h f w2)")
        from o Inr have o': "OpenFile ?path (Mode f) w1 = (Inr h, w2)"
          by simp
        from open_and_copy [OF o' c] have "r3 \<noteq> Err ENOENT"
          by auto
        with False m True o Inr c show ?thesis
          by (simp add: write_entry_def Let_def)
      qed
    qed
  qed
qed

lemma extractAndWrite_found:
  assumes wf: "wf_world w" and ne: "Join output (Name f) \<noteq> []"
  shows "fst (extractAndWrite output f w) \<noteq> Err ENOENT"
proof -
  obtain r w' where e: "extractAndWrite output f w = (r, w')"
    by (cases "extractAndWrite output f w")
  have "wf_world (emit (ZipOpen (Name f)) w)"
    using wf by simp
  from write_entry_found [OF this ne] extractAndWrite_cases [OF e] e show ?thesis
    by auto
qed

lemma Extract_loop_found:
  "wf_world w \<Longrightarrow> output \<noteq> [] \<Longrightarrow> fst (Extract_loop output n i fs w) \<noteq> Err ENOENT"
proof (induction fs arbitrary: i w)
  case Nil
  show ?case by simp
next
  case (Cons f fs)
  let ?w1 = "emit (SetValue (real (i + 1) / real n)) w"
  obtain r0 w2 where s: "extractAndWrite output f ?w1 = (r0, w2)"
    by (cases "extractAndWrite output f ?w1")
  have wf1: "wf_world ?w1"
    using Cons.prems(1) by simp
  from extractAndWrite_found [OF wf1, of "output" f] Cons.prems(2) s
  have r0: "r0 \<noteq> Err ENOENT"
    by (simp add: Join_not_Nil)
  from extractAndWrite_effect [OF s] wf1 have wf2: "wf_world w2"
    by simp
  show ?case
  proof (cases "r0 = Nil")
    case True
    with s Cons.IH [OF wf2 Cons.prems(2), of "i + 1"] show ?thesis
      by simp
  next
    case False
    with s r0 show ?thesis
      by (cases r0) auto
  qed
qed

text \<open>
  Claim C7. Extracting a file entry never fails with "no such file or directory": the
  parent \<open>filepath.Dir(path)\<close> is made by \<open>os.MkdirAll\<close> before the file is opened, so the
  file is opened in a directory that exists, whatever the archive held before the entry,
  a directory entry for the parent or none. This holds for every entry whose path is not
  the empty string, in every file system that is a tree; and so no extraction into a
  destination with a non-empty name fails with that error, in whatever order the entries
  come. (A parent made with a file's mode may lack the search bit; opening the file then
  fails with \<open>EACCES\<close>, not with a missing parent.)
\<close>

theorem Extract_parent_never_missing:
  "(wf_world w \<and> \<not> IsDir f \<and> (output \<noteq> [] \<or> Name f \<noteq> []) \<longrightarrow>
      fst (extractAndWrite output f w) \<noteq> Err ENOENT)
   \<and> (wf_world w \<and> output \<noteq> [] \<longrightarrow> fst (Extract (Inr files) output w) \<noteq> Err ENOENT)"
  using extractAndWrite_found [of w "output" f] Extract_loop_found [of w "output" "length files" 0 files]
  by (auto simp: Extract_def Join_not_Nil)

theorem Extract_parent_never_missing_witness:
  "wf_world unix_world \<and> \<not> IsDir deep
   \<and> fst (extractAndWrite ''/tmp/out'' deep unix_world) \<noteq> Err ENOENT
   \<and> fst (Extract (Inr [readme, assets_dir]) ''/tmp/out'' unix_world) \<noteq> Err ENOENT
   \<and> fst (Extract (Inr [readme, assets_dir]) ''/tmp/out'' unix_world) = Nil"
proof -
  have a: "wf_world unix_world" by code_simp
  have b: "\<not> IsDir deep" by code_simp
  have n: "''/tmp/out'' \<noteq> []" by simp
  note t = Extract_parent_never_missing [of unix_world deep "''/tmp/out''" "[readme, assets_dir]"]
  from t a b n have c: "fst (extractAndWrite ''/tmp/out'' deep unix_world) \<noteq> Err ENOENT"
    by blast
  from t a n have d: "fst (Extract (Inr [readme, assets_dir]) ''/tmp/out'' unix_world) \<noteq> Err ENOENT"
    by blast
  have e: "fst (Extract (Inr [readme, assets_dir]) ''/tmp/out'' unix_world) = Nil"
    by code_simp
  show ?thesis
    by (intro conjI a b c d e)
qed

subsection \<open>Where Extract writes\<close>








subsection \<open>Extracting twice\<close>








subsection \<open>Copy\<close>

lemma Open_present:
  "resolve (cwd w) input = Some i \<Longrightarrow> present w i \<Longrightarrow> Open input w = (Inr i, emit (SysOpen input) w)"
  by (simp add: Open_def Let_def)

lemma Open_frame:
  "Open input w = (r, w') \<Longrightarrow> w' = emit (SysOpen input) w"
  by (auto simp: Open_def Let_def split: option.splits if_splits)

lemma Stat_present:
  "resolve (cwd w) output = Some p \<Longrightarrow> present w p \<Longrightarrow> Stat output w = (Inr p, emit (SysStat output) w)"
  by (simp add: Stat_def Let_def)

text \<open>
  Claim C9, as amended. When something exists at \<open>output\<close>, \<open>Copy\<close> leaves every node of
  the file system as it was and makes no call but \<open>os.Open(input)\<close>, \<open>os.Stat(output)\<close> and
  the deferred close of the input: the output is neither opened nor created. When
  \<open>os.Open(input)\<close> fails, \<open>Copy\<close> returns its error after that one call. When it succeeds,
  the trace is exactly the three calls, and \<open>Copy\<close> returns nil unless the close of the
  input fails, which is a panic.
\<close>

theorem Copy_existing_output:
  assumes out: "resolve (cwd w) output = Some p" "present w p"
  shows "nodes (snd (Copy input output w)) = nodes w
       \<and> (\<exists>evs. trace (snd (Copy input output w)) = trace w @ evs
                 \<and> set evs \<subseteq> {SysOpen input, SysStat output} \<union> range SysClose)
       \<and> (\<forall>e. fst (Open input w) = Inl e \<longrightarrow>
             Copy input output w = (Err e, w\<lparr>trace := trace w @ [SysOpen input]\<rparr>))
       \<and> (\<forall>i. fst (Open input w) = Inr i \<longrightarrow>
             snd (Copy input output w)
               = w\<lparr>trace := trace w @ [SysOpen input, SysStat output, SysClose i]\<rparr>
             \<and> fst (Copy input output w)
               = (case close_err w i of None \<Rightarrow> Nil | Some err \<Rightarrow> Panic err))"
proof -
  obtain r w1 where o: "Open input w = (r, w1)"
    by (cases "Open input w")
  then have w1: "w1 = emit (SysOpen input) w"
    by (rule Open_frame)
  have st: "Stat output w1 = (Inr p, emit (SysStat output) w1)"
    using out by (simp add: Stat_present w1)
  have c: "Copy input output w =
             (case r of Inl err \<Rightarrow> (Err err, w1)
              | Inr inFile \<Rightarrow> deferred_close (Close inFile) (Nil, emit (SysStat output) w1))"
    by (simp add: Copy_def o st split: sum.splits)
  show ?thesis
  proof (intro conjI allI impI)
    show "nodes (snd (Copy input output w)) = nodes w"
      by (cases r) (simp_all add: c w1 deferred_close_def Close_def split: option.splits)
    show "\<exists>evs. trace (snd (Copy input output w)) = trace w @ evs
                 \<and> set evs \<subseteq> {SysOpen input, SysStat output} \<union> range SysClose"
      by (cases r) (simp_all add: c w1 deferred_Close_trace)
  next
    fix e assume "fst (Open input w) = Inl e"
    then have r: "r = Inl e"
      using o by simp
    show "Copy input output w = (Err e, w\<lparr>trace := trace w @ [SysOpen input]\<rparr>)"
      by (simp add: c r w1 emit_def)
  next
    fix i assume "fst (Open input w) = Inr i"
    then have r: "r = Inr i"
      using o by simp
    show "snd (Copy input output w)
               = w\<lparr>trace := trace w @ [SysOpen input, SysStat output, SysClose i]\<rparr>"
      by (simp add: c r w1 deferred_close_def Close_def emit_def split: option.splits)
    show "fst (Copy input output w)
               = (case close_err w i of None \<Rightarrow> Nil | Some err \<Rightarrow> Panic err)"
      by (simp add: c r w1 deferred_close_def Close_def split: option.splits)
  qed
qed

theorem Copy_existing_output_witness:
  "resolve (cwd unix_world) ''/tmp/a.txt'' = Some [''tmp'', ''a.txt'']
   \<and> present unix_world [''tmp'', ''a.txt'']
   \<and> fst (Open ''/tmp/b.txt'' unix_world) = Inr [''tmp'', ''b.txt'']
   \<and> close_err unix_world [''tmp'', ''b.txt''] = None
   \<and> fst (Copy ''/tmp/b.txt'' ''/tmp/a.txt'' unix_world) = Nil
   \<and> snd (Copy ''/tmp/b.txt'' ''/tmp/a.txt'' unix_world)
        = unix_world\<lparr>trace := trace unix_world
            @ [SysOpen ''/tmp/b.txt'', SysStat ''/tmp/a.txt'', SysClose [''tmp'', ''b.txt'']]\<rparr>
   \<and> node_at (snd (Copy ''/tmp/b.txt'' ''/tmp/a.txt'' unix_world)) [''tmp'', ''a.txt''] = Some (FileN 0x1A4 ''old'')
   \<and> fst (Open ''/tmp/none'' unix_world) = Inl ENOENT
   \<and> Copy ''/tmp/none'' ''/tmp/a.txt'' unix_world
        = (Err ENOENT, unix_world\<lparr>trace := trace unix_world @ [SysOpen ''/tmp/none'']\<rparr>)"
proof -
  have a: "resolve (cwd unix_world) ''/tmp/a.txt'' = Some [''tmp'', ''a.txt'']"
    by code_simp
  have b: "present unix_world [''tmp'', ''a.txt'']"
    by code_simp
  have c: "fst (Open ''/tmp/b.txt'' unix_world) = Inr [''tmp'', ''b.txt'']"
    by code_simp
  have ce: "close_err unix_world [''tmp'', ''b.txt''] = None"
    by (simp add: unix_world_def)
  note t = Copy_existing_output [OF a b, of "''/tmp/b.txt''"]
  from t c have e: "snd (Copy ''/tmp/b.txt'' ''/tmp/a.txt'' unix_world)
        = unix_world\<lparr>trace := trace unix_world
            @ [SysOpen ''/tmp/b.txt'', SysStat ''/tmp/a.txt'', SysClose [''tmp'', ''b.txt'']]\<rparr>"
    by blast
  from t c have "fst (Copy ''/tmp/b.txt'' ''/tmp/a.txt'' unix_world)
        = (case close_err unix_world [''tmp'', ''b.txt''] of None \<Rightarrow> Nil | Some err \<Rightarrow> Panic err)"
    by blast
  with ce have r: "fst (Copy ''/tmp/b.txt'' ''/tmp/a.txt'' unix_world) = Nil"
    by simp
  have f: "node_at unix_world [''tmp'', ''a.txt''] = Some (FileN 0x1A4 ''old'')"
    by code_simp
  from t have "nodes (snd (Copy ''/tmp/b.txt'' ''/tmp/a.txt'' unix_world)) = nodes unix_world"
    by blast
  with f have g: "node_at (snd (Copy ''/tmp/b.txt'' ''/tmp/a.txt'' unix_world)) [''tmp'', ''a.txt''] = Some (FileN 0x1A4 ''old'')"
    by simp
  have h: "fst (Open ''/tmp/none'' unix_world) = Inl ENOENT"
    by code_simp
  from Copy_existing_output [OF a b, of "''/tmp/none''"] h
  have i: "Copy ''/tmp/none'' ''/tmp/a.txt'' unix_world
        = (Err ENOENT, unix_world\<lparr>trace := trace unix_world @ [SysOpen ''/tmp/none'']\<rparr>)"
    by blast
  show ?thesis
    by (intro conjI a b c ce r e g h i)
qed

text \<open>
  Claim C9 as stated fails: \<open>Copy\<close> opens the input first, so with a file at the output
  and no file at the input it returns \<open>ENOENT\<close>, not success.
\<close>

theorem Copy_missing_input_counterexample:
  "node_at unix_world [''tmp'', ''a.txt''] = Some (FileN 0x1A4 ''old'')
   \<and> fst (Copy ''/nothere'' ''/tmp/a.txt'' unix_world) = Err ENOENT"
  by code_simp

end
